theory Spec2Isabelle
  imports Main
begin

section \<open>Values shared by the client: errors, responses, requests\<close>

text \<open>
  The model follows \<^verbatim>\<open>src/github-client.ts\<close> and \<^verbatim>\<open>src/index.ts\<close>.
  Instants (\<^verbatim>\<open>Date\<close> objects, ISO strings sent to the service) are integers, the
  milliseconds of \<^verbatim>\<open>getTime()\<close>; counts are integers; strings are byte strings.
\<close>

definition MAX_RETRIES :: nat where
  "MAX_RETRIES = 3"

definition INITIAL_RETRY_DELAY_MS :: int where
  "INITIAL_RETRY_DELAY_MS = 1000"

text \<open>
  An \<^verbatim>\<open>Error\<close> object as the transport rejects with: its message and, when the
  failure is an HTTP response, the \<^verbatim>\<open>status\<close> property.
\<close>

record js_error =
  message :: string
  status :: "nat option"

text \<open>
  What a \<^verbatim>\<open>throw\<close> of the client can carry: an \<^verbatim>\<open>Error\<close> as the transport made it,
  a \<^verbatim>\<open>GitHubApiError\<close> (which has the fields \<^verbatim>\<open>repoName\<close>, \<^verbatim>\<open>operation\<close>,
  \<^verbatim>\<open>originalError\<close> and no \<^verbatim>\<open>status\<close> of its own), or \<^verbatim>\<open>undefined\<close> (the
  initial value of \<^verbatim>\<open>lastError\<close> in \<^verbatim>\<open>withRetry\<close>).
\<close>

datatype thrown =
    PlainError js_error
  | GitHubApiError (repoName: string) (operation: string) (originalError: js_error)
  | Undefined

text \<open>\<^verbatim>\<open>error instanceof Error && "status" in error\<close>, then \<^verbatim>\<open>error.status\<close>.\<close>

fun thrown_status :: "thrown \<Rightarrow> nat option" where
  "thrown_status (PlainError e) = status e"
| "thrown_status (GitHubApiError r opn e) = None"
| "thrown_status Undefined = None"

subsection \<open>String helpers of the JavaScript runtime\<close>

text \<open>
  \<^verbatim>\<open>toLowerCase\<close> on the ASCII letters: an upper-case letter differs from its
  lower-case form in the bit of weight 32.
\<close>

definition toLowerCase_char :: "char \<Rightarrow> char" where
  "toLowerCase_char c =
     (if c \<in> set ''ABCDEFGHIJKLMNOPQRSTUVWXYZ''
      then (case c of Char b0 b1 b2 b3 b4 b5 b6 b7 \<Rightarrow> Char b0 b1 b2 b3 b4 True b6 b7)
      else c)"

definition toLowerCase :: "string \<Rightarrow> string" where
  "toLowerCase s = map toLowerCase_char s"

fun startsWith :: "string \<Rightarrow> string \<Rightarrow> bool" where
  "startsWith s [] = True"
| "startsWith [] (n # ns) = False"
| "startsWith (c # cs) (n # ns) = (c = n \<and> startsWith cs ns)"

fun str_includes :: "string \<Rightarrow> string \<Rightarrow> bool" where
  "str_includes [] needle = (needle = [])"
| "str_includes (c # cs) needle = (startsWith (c # cs) needle \<or> str_includes cs needle)"

subsection \<open>Classification of a failure\<close>

definition isRetryableError :: "js_error \<Rightarrow> bool" where
  "isRetryableError error =
     (let msg = toLowerCase (message error) in
      if str_includes msg ''other side closed'' \<or>
         str_includes msg ''econnreset'' \<or>
         str_includes msg ''socket hang up'' \<or>
         str_includes msg ''etimedout'' \<or>
         str_includes msg ''enotfound'' \<or>
         str_includes msg ''network'' \<or>
         str_includes msg ''timeout''
      then True
      else (case status error of
              Some s \<Rightarrow> s = 403 \<or> s = 429 \<or> s = 502 \<or> s = 503 \<or> s = 504
            | None \<Rightarrow> False))"

subsection \<open>Requests and responses\<close>

record headers =
  x_ratelimit_remaining :: "int option"
  x_ratelimit_reset :: "int option"

record 'a response =
  data :: 'a
  headers :: headers

text \<open>
  The calls of the REST client, with the parameters the source passes (the owner is
  always the configured organisation and is left out).
\<close>

datatype request =
    ReposGet string
  | ListCommits string string "int option" "int option" nat "nat option"
  | GetCommit string string
  | CompareCommits string string string
  | PullsList string string nat nat
  | IssuesListForRepo string int nat nat
  | ListReleases string nat nat

section \<open>The client's state and its effects\<close>

datatype event =
    Succeeded request
  | Failed request js_error
  | Slept int

record client =
  rateLimitRemaining :: int
  rateLimitReset :: int
  repoBranchCache :: "string \<rightharpoonup> string"
  clock :: int
  issued :: nat
  trace :: "event list"

definition new_client :: "int \<Rightarrow> client" where
  "new_client now =
     \<lparr>rateLimitRemaining = 5000, rateLimitReset = 0, repoBranchCache = Map.empty,
      clock = now, issued = 0, trace = []\<rparr>"

definition sleep :: "int \<Rightarrow> client \<Rightarrow> client" where
  "sleep ms st = st\<lparr>clock := clock st + ms, trace := trace st @ [Slept ms]\<rparr>"

definition updateRateLimit :: "headers \<Rightarrow> client \<Rightarrow> client" where
  "updateRateLimit h st =
     (let st1 = (case x_ratelimit_remaining h of
                   Some v \<Rightarrow> st\<lparr>rateLimitRemaining := v\<rparr>
                 | None \<Rightarrow> st)
      in (case x_ratelimit_reset h of
            Some v \<Rightarrow> st1\<lparr>rateLimitReset := v\<rparr>
          | None \<Rightarrow> st1))"

definition checkRateLimit :: "client \<Rightarrow> client" where
  "checkRateLimit st =
     (if rateLimitRemaining st < 100 then
        (let now = clock st div 1000;
             waitSeconds = max 0 (rateLimitReset st - now) + 5
         in if waitSeconds > 0 \<and> waitSeconds < 3600 then sleep (waitSeconds * 1000) st
            else st)
      else st)"

subsection \<open>Outcomes of an asynchronous method\<close>

datatype 'a outcome = Returned 'a | Threw thrown | Unfinished

type_synonym 'a action = "client \<Rightarrow> 'a outcome \<times> client"

definition return :: "'a \<Rightarrow> 'a action" where
  "return v st = (Returned v, st)"

definition throw :: "thrown \<Rightarrow> 'a action" where
  "throw e st = (Threw e, st)"

definition andThen :: "'a action \<Rightarrow> ('a \<Rightarrow> 'b action) \<Rightarrow> 'b action" where
  "andThen m f st =
     (case m st of
        (Returned v, st') \<Rightarrow> f v st'
      | (Threw e, st') \<Rightarrow> (Threw e, st')
      | (Unfinished, st') \<Rightarrow> (Unfinished, st'))"

definition tryCatch :: "'a action \<Rightarrow> (thrown \<Rightarrow> 'a action) \<Rightarrow> 'a action" where
  "tryCatch m handler st =
     (case m st of
        (Returned v, st') \<Rightarrow> (Returned v, st')
      | (Threw e, st') \<Rightarrow> handler e st'
      | (Unfinished, st') \<Rightarrow> (Unfinished, st'))"

subsection \<open>withRetry\<close>

definition retryDelay :: "nat \<Rightarrow> js_error \<Rightarrow> int" where
  "retryDelay attempt error =
     (let delayMs = INITIAL_RETRY_DELAY_MS * 2 ^ (attempt - 1)
      in if status error = Some 403 then max delayMs 60000 else delayMs)"

definition invoke :: "request \<Rightarrow> (nat \<Rightarrow> js_error + 'a response) \<Rightarrow> client \<Rightarrow>
    (js_error + 'a response) \<times> client" where
  "invoke req oper st =
     (case oper (issued st) of
        Inr result \<Rightarrow>
          (Inr result, st\<lparr>issued := issued st + 1, trace := trace st @ [Succeeded req]\<rparr>)
      | Inl error \<Rightarrow>
          (Inl error, st\<lparr>issued := issued st + 1, trace := trace st @ [Failed req error]\<rparr>))"

function withRetry_from :: "nat \<Rightarrow> js_error option \<Rightarrow> request \<Rightarrow>
    (nat \<Rightarrow> js_error + 'a response) \<Rightarrow> string \<Rightarrow> string \<Rightarrow> 'a response action" where
  "withRetry_from attempt lastError req oper repo operationName st =
     (if attempt \<le> MAX_RETRIES then
        (case invoke req oper st of
           (Inr result, st1) \<Rightarrow> (Returned result, updateRateLimit (headers result) st1)
         | (Inl error, st1) \<Rightarrow>
             if \<not> isRetryableError error \<or> attempt = MAX_RETRIES
             then (Threw (GitHubApiError repo operationName error), st1)
             else withRetry_from (attempt + 1) (Some error) req oper repo operationName
                    (sleep (retryDelay attempt error) st1))
      else (case lastError of
              Some error \<Rightarrow> (Threw (GitHubApiError repo operationName error), st)
            | None \<Rightarrow> (Threw Undefined, st)))"
  by pat_completeness auto
termination
  by (relation "measure (\<lambda>(attempt, _). MAX_RETRIES + 1 - attempt)") auto

definition withRetry :: "request \<Rightarrow> (nat \<Rightarrow> js_error + 'a response) \<Rightarrow> string \<Rightarrow> string \<Rightarrow>
    'a response action" where
  "withRetry req oper repo operationName st =
     withRetry_from 1 None req oper repo operationName (checkRateLimit st)"

section \<open>The remote service as the client sees it\<close>

text \<open>
  The payloads, reduced to the fields the client reads. A field the client guards with
  \<^verbatim>\<open>?.\<close> or \<^verbatim>\<open>??\<close> is optional.
\<close>

record commit_stats =
  additions :: "int option"
  deletions :: "int option"

record commit =
  sha :: string
  committed_at :: int
  author_login :: "string option"
  author_email :: "string option"
  parents :: "string list"
  stats :: "commit_stats option"

record diff_file =
  file_additions :: "int option"
  file_deletions :: "int option"

record pull =
  pull_created_at :: int

record issue =
  is_pull_request :: bool
  issue_created_at :: int
  closed_at :: "int option"

record release =
  published_at :: "int option"
  release_created_at :: int

text \<open>
  One function per endpoint the client calls. The first argument is the number of
  requests this client has issued before, so the answer to the same request may change
  from one attempt to the next; \<open>Inl\<close> is a rejected promise.
\<close>

record api =
  repos_get :: "nat \<Rightarrow> request \<Rightarrow> js_error + string response"
  listCommits :: "nat \<Rightarrow> request \<Rightarrow> js_error + commit list response"
  getCommit :: "nat \<Rightarrow> request \<Rightarrow> js_error + commit response"
  compareCommits :: "nat \<Rightarrow> request \<Rightarrow> js_error + diff_file list option response"
  pulls_list :: "nat \<Rightarrow> request \<Rightarrow> js_error + pull list response"
  issues_listForRepo :: "nat \<Rightarrow> request \<Rightarrow> js_error + issue list response"
  listReleases :: "nat \<Rightarrow> request \<Rightarrow> js_error + release list response"

text \<open>
  The configuration the client reads. \<open>startDate\<close> is the instant
  \<^verbatim>\<open>new Date(startDate)\<close> and \<open>endDate\<close> the instant
  \<^verbatim>\<open>new Date(endDate + "T23:59:59")\<close>; parsing the two strings is not modelled.
\<close>

record config =
  startDate :: int
  endDate :: int
  skipLineStats :: bool
  options_pageSize :: nat

definition pageSize :: "config \<Rightarrow> nat" where
  "pageSize cfg = (if options_pageSize cfg = 0 then 100 else options_pageSize cfg)"

section \<open>The client's methods\<close>

subsection \<open>getDefaultBranch\<close>

definition rememberBranch :: "string \<Rightarrow> string response \<Rightarrow> string action" where
  "rememberBranch repo response st =
     (let st1 = updateRateLimit (headers response) st;
          defaultBranch = data response
      in (Returned defaultBranch,
          st1\<lparr>repoBranchCache := (repoBranchCache st1)(repo \<mapsto> defaultBranch)\<rparr>))"

definition fetchDefaultBranch :: "api \<Rightarrow> string \<Rightarrow> string action" where
  "fetchDefaultBranch srv repo =
     andThen
       (withRetry (ReposGet repo) (\<lambda>n. repos_get srv n (ReposGet repo))
          repo ''fetching default branch'')
       (rememberBranch repo)"

definition getDefaultBranch :: "api \<Rightarrow> string \<Rightarrow> string action" where
  "getDefaultBranch srv repo st =
     (case repoBranchCache st repo of
        Some cached \<Rightarrow>
          if cached \<noteq> [] then (Returned cached, st) else fetchDefaultBranch srv repo st
      | None \<Rightarrow> fetchDefaultBranch srv repo st)"

text \<open>\<^verbatim>\<open>branch ?? await this.getDefaultBranch(repoName)\<close>\<close>

definition targetBranch :: "api \<Rightarrow> string \<Rightarrow> string option \<Rightarrow> string action" where
  "targetBranch srv repo branch =
     (case branch of Some b \<Rightarrow> return b | None \<Rightarrow> getDefaultBranch srv repo)"

subsection \<open>Paged collectors\<close>

text \<open>
  Each collector is a \<^verbatim>\<open>while (true)\<close> loop over the pages, with the page number and an
  accumulator as its variables. One iteration decides a \<open>flow\<close>: go on to the next page
  with the accumulated value (\<open>NextPage\<close>), or leave the method with its result
  (\<open>Result\<close>, for a \<^verbatim>\<open>return\<close> inside the loop as well as for a \<^verbatim>\<open>break\<close> followed
  by the \<^verbatim>\<open>return\<close> after it). The loop takes fuel, one unit per iteration: with none
  left the outcome is \<open>Unfinished\<close>.
\<close>

datatype 'a flow = NextPage 'a | Result 'a

fun paged :: "nat \<Rightarrow> (nat \<Rightarrow> 'a \<Rightarrow> 'a flow action) \<Rightarrow> nat \<Rightarrow> 'a \<Rightarrow> 'a action" where
  "paged 0 body page acc st = (Unfinished, st)"
| "paged (Suc fuel) body page acc st =
     andThen (body page acc)
       (\<lambda>step. case step of
                 Result v \<Rightarrow> return v
               | NextPage acc' \<Rightarrow> paged fuel body (page + 1) acc')
       st"

definition commitsInRange :: "config \<Rightarrow> string \<Rightarrow> string \<Rightarrow> nat \<Rightarrow> request" where
  "commitsInRange cfg repo branch page =
     ListCommits repo branch (Some (startDate cfg)) (Some (endDate cfg)) (pageSize cfg)
       (Some page)"

definition getCommitCount_page :: "config \<Rightarrow> api \<Rightarrow> string \<Rightarrow> string \<Rightarrow> nat \<Rightarrow> int \<Rightarrow>
    int flow action" where
  "getCommitCount_page cfg srv repo branch page count =
     tryCatch
       (andThen
          (withRetry (commitsInRange cfg repo branch page)
             (\<lambda>n. listCommits srv n (commitsInRange cfg repo branch page))
             repo ''fetching commits'')
          (\<lambda>response.
             (let count' = count + int (length (data response))
              in if length (data response) < pageSize cfg then return (Result count')
                 else return (NextPage count'))))
       (\<lambda>error. if thrown_status error = Some 409 then return (Result 0)
                 else throw error)"

definition getCommitCount :: "nat \<Rightarrow> config \<Rightarrow> api \<Rightarrow> string \<Rightarrow> string option \<Rightarrow> int action" where
  "getCommitCount fuel cfg srv repo branch =
     andThen (targetBranch srv repo branch)
       (\<lambda>b. paged fuel (getCommitCount_page cfg srv repo b) 1 0)"

fun countPulls :: "config \<Rightarrow> pull list \<Rightarrow> int \<Rightarrow> int flow" where
  "countPulls cfg [] count = NextPage count"
| "countPulls cfg (pr # prs) count =
     (if pull_created_at pr < startDate cfg then Result count
      else countPulls cfg prs
             (if pull_created_at pr \<ge> startDate cfg \<and> pull_created_at pr \<le> endDate cfg
              then count + 1 else count))"

definition getPullRequestCount_page :: "config \<Rightarrow> api \<Rightarrow> string \<Rightarrow> string \<Rightarrow> nat \<Rightarrow> int \<Rightarrow>
    int flow action" where
  "getPullRequestCount_page cfg srv repo branch page count =
     andThen
       (withRetry (PullsList repo branch (pageSize cfg) page)
          (\<lambda>n. pulls_list srv n (PullsList repo branch (pageSize cfg) page))
          repo ''fetching pull requests'')
       (\<lambda>response.
          if length (data response) = 0 then return (Result count)
          else (case countPulls cfg (data response) count of
                  Result v \<Rightarrow> return (Result v)
                | NextPage count' \<Rightarrow>
                    if length (data response) < pageSize cfg then return (Result count')
                    else return (NextPage count')))"

definition getPullRequestCount :: "nat \<Rightarrow> config \<Rightarrow> api \<Rightarrow> string \<Rightarrow> string option \<Rightarrow>
    int action" where
  "getPullRequestCount fuel cfg srv repo branch =
     andThen (targetBranch srv repo branch)
       (\<lambda>b. paged fuel (getPullRequestCount_page cfg srv repo b) 1 0)"

text \<open>
  The \<^verbatim>\<open>Set<string>\<close> of contributors keeps insertion order; \<^verbatim>\<open>Array.from\<close> reads
  it in that order.
\<close>

definition set_add :: "string \<Rightarrow> string list \<Rightarrow> string list" where
  "set_add x xs = (if x \<in> set xs then xs else xs @ [x])"

definition commit_author :: "commit \<Rightarrow> string option" where
  "commit_author c = (case author_login c of Some l \<Rightarrow> Some l | None \<Rightarrow> author_email c)"

fun addAuthors :: "commit list \<Rightarrow> string list \<Rightarrow> string list" where
  "addAuthors [] authors = authors"
| "addAuthors (c # cs) authors =
     addAuthors cs
       (case commit_author c of
          Some author \<Rightarrow> if author \<noteq> [] then set_add author authors else authors
        | None \<Rightarrow> authors)"

definition getContributors_page :: "config \<Rightarrow> api \<Rightarrow> string \<Rightarrow> string \<Rightarrow> nat \<Rightarrow> string list \<Rightarrow>
    string list flow action" where
  "getContributors_page cfg srv repo branch page authors =
     tryCatch
       (andThen
          (withRetry (commitsInRange cfg repo branch page)
             (\<lambda>n. listCommits srv n (commitsInRange cfg repo branch page))
             repo ''fetching contributors'')
          (\<lambda>response.
             if length (data response) = 0 then return (Result authors)
             else (let authors' = addAuthors (data response) authors
                   in if length (data response) < pageSize cfg
                      then return (Result authors')
                      else return (NextPage authors'))))
       (\<lambda>error. if thrown_status error = Some 409 then return (Result [])
                 else throw error)"

definition getContributors :: "nat \<Rightarrow> config \<Rightarrow> api \<Rightarrow> string \<Rightarrow> string option \<Rightarrow>
    string list action" where
  "getContributors fuel cfg srv repo branch =
     andThen (targetBranch srv repo branch)
       (\<lambda>b. paged fuel (getContributors_page cfg srv repo b) 1 [])"

definition release_time :: "release \<Rightarrow> int" where
  "release_time r = (case published_at r of Some t \<Rightarrow> t | None \<Rightarrow> release_created_at r)"

fun countReleases :: "config \<Rightarrow> release list \<Rightarrow> int \<Rightarrow> int flow" where
  "countReleases cfg [] count = NextPage count"
| "countReleases cfg (r # rs) count =
     (let publishedAt = release_time r;
          count' = (if publishedAt \<ge> startDate cfg \<and> publishedAt \<le> endDate cfg
                    then count + 1 else count)
      in if publishedAt < startDate cfg then Result count'
         else countReleases cfg rs count')"

definition getReleaseCount_page :: "config \<Rightarrow> api \<Rightarrow> string \<Rightarrow> nat \<Rightarrow> int \<Rightarrow> int flow action" where
  "getReleaseCount_page cfg srv repo page count =
     tryCatch
       (andThen
          (withRetry (ListReleases repo (pageSize cfg) page)
             (\<lambda>n. listReleases srv n (ListReleases repo (pageSize cfg) page))
             repo ''fetching releases'')
          (\<lambda>response.
             if length (data response) = 0 then return (Result count)
             else (case countReleases cfg (data response) count of
                     Result v \<Rightarrow> return (Result v)
                   | NextPage count' \<Rightarrow>
                       if length (data response) < pageSize cfg
                       then return (Result count')
                       else return (NextPage count'))))
       (\<lambda>error. return (Result 0))"

definition getReleaseCount :: "nat \<Rightarrow> config \<Rightarrow> api \<Rightarrow> string \<Rightarrow> int action" where
  "getReleaseCount fuel cfg srv repo = paged fuel (getReleaseCount_page cfg srv repo) 1 0"

fun countIssues :: "config \<Rightarrow> issue list \<Rightarrow> int \<times> int \<Rightarrow> int \<times> int" where
  "countIssues cfg [] acc = acc"
| "countIssues cfg (i # is) (created, closed) =
     (if is_pull_request i then countIssues cfg is (created, closed)
      else
        (let created' = (if issue_created_at i \<ge> startDate cfg \<and> issue_created_at i \<le> endDate cfg
                         then created + 1 else created);
             closed' = (case closed_at i of
                          Some closedAt \<Rightarrow>
                            if closedAt \<ge> startDate cfg \<and> closedAt \<le> endDate cfg
                            then closed + 1 else closed
                        | None \<Rightarrow> closed)
         in countIssues cfg is (created', closed')))"

definition getIssueStats_page :: "config \<Rightarrow> api \<Rightarrow> string \<Rightarrow> nat \<Rightarrow> int \<times> int \<Rightarrow>
    (int \<times> int) flow action" where
  "getIssueStats_page cfg srv repo page acc =
     andThen
       (withRetry (IssuesListForRepo repo (startDate cfg) (pageSize cfg) page)
          (\<lambda>n. issues_listForRepo srv n
                  (IssuesListForRepo repo (startDate cfg) (pageSize cfg) page))
          repo ''fetching issues'')
       (\<lambda>response.
          if length (data response) = 0 then return (Result acc)
          else (let acc' = countIssues cfg (data response) acc
                in if length (data response) < pageSize cfg then return (Result acc')
                   else return (NextPage acc')))"

definition getIssueStats :: "nat \<Rightarrow> config \<Rightarrow> api \<Rightarrow> string \<Rightarrow> (int \<times> int) action" where
  "getIssueStats fuel cfg srv repo = paged fuel (getIssueStats_page cfg srv repo) 1 (0, 0)"

subsection \<open>getLinesOfCode\<close>

record line_delta =
  added :: int
  deleted :: int

definition no_lines :: line_delta where
  "no_lines = \<lparr>added = 0, deleted = 0\<rparr>"

definition or_zero :: "int option \<Rightarrow> int" where
  "or_zero v = (case v of Some n \<Rightarrow> n | None \<Rightarrow> 0)"

definition sumFiles :: "diff_file list option \<Rightarrow> line_delta" where
  "sumFiles files =
     (case files of
        Some fs \<Rightarrow>
          fold (\<lambda>file acc. \<lparr>added = added acc + or_zero (file_additions file),
                              deleted = deleted acc + or_zero (file_deletions file)\<rparr>)
            fs no_lines
      | None \<Rightarrow> no_lines)"

definition rootStats :: "commit \<Rightarrow> line_delta" where
  "rootStats detail =
     \<lparr>added = (case stats detail of Some s \<Rightarrow> or_zero (additions s) | None \<Rightarrow> 0),
      deleted = (case stats detail of Some s \<Rightarrow> or_zero (deletions s) | None \<Rightarrow> 0)\<rparr>"

text \<open>
  The branch taken when no commit precedes the start date: the base is the parent of the
  last commit of the first page of commits in range (\<open>Base\<close> carries it on to the
  comparison), or the method returns at once (\<open>Answer\<close>).
\<close>

datatype base = Base string | Answer line_delta

definition firstCommitParent :: "config \<Rightarrow> api \<Rightarrow> string \<Rightarrow> string \<Rightarrow>
    base action" where
  "firstCommitParent cfg srv repo branch =
     andThen
       (withRetry
          (ListCommits repo branch (Some (startDate cfg)) (Some (endDate cfg)) (pageSize cfg) None)
          (\<lambda>n. listCommits srv n
                  (ListCommits repo branch (Some (startDate cfg)) (Some (endDate cfg))
                     (pageSize cfg) None))
          repo ''finding first commit'')
       (\<lambda>firstCommitsResponse.
          if length (data firstCommitsResponse) = 0 then return (Answer no_lines)
          else
            (let oldestCommit = last (data firstCommitsResponse) in
             andThen
               (withRetry (GetCommit repo (sha oldestCommit))
                  (\<lambda>n. getCommit srv n (GetCommit repo (sha oldestCommit)))
                  repo ''getting commit parent'')
               (\<lambda>commitDetail.
                  (case parents (data commitDetail) of
                     p # ps \<Rightarrow> return (Base p)
                   | [] \<Rightarrow> return (Answer (rootStats (data commitDetail)))))))"

definition lineStats :: "config \<Rightarrow> api \<Rightarrow> string \<Rightarrow> string \<Rightarrow> line_delta action" where
  "lineStats cfg srv repo branch =
     andThen
       (withRetry (ListCommits repo branch None (Some (endDate cfg)) 1 None)
          (\<lambda>n. listCommits srv n (ListCommits repo branch None (Some (endDate cfg)) 1 None))
          repo ''finding end commit'')
       (\<lambda>endCommitsResponse.
          (case data endCommitsResponse of
             [] \<Rightarrow> return no_lines
           | endCommit # rest \<Rightarrow>
               (let endCommitSha = sha endCommit in
                andThen
                  (withRetry (ListCommits repo branch None (Some (startDate cfg - 1)) 1 None)
                     (\<lambda>n. listCommits srv n
                             (ListCommits repo branch None (Some (startDate cfg - 1)) 1 None))
                     repo ''finding base commit'')
                  (\<lambda>baseCommitsResponse.
                     andThen
                       (case data baseCommitsResponse of
                          baseCommit # rest' \<Rightarrow> return (Base (sha baseCommit))
                        | [] \<Rightarrow> firstCommitParent cfg srv repo branch)
                       (\<lambda>resolved.
                          (case resolved of
                             Answer answer \<Rightarrow> return answer
                           | Base baseSha \<Rightarrow>
                               if baseSha = endCommitSha then return no_lines
                               else
                                 andThen
                                   (withRetry (CompareCommits repo baseSha endCommitSha)
                                      (\<lambda>n. compareCommits srv n
                                              (CompareCommits repo baseSha endCommitSha))
                                      repo ''comparing commits'')
                                   (\<lambda>compareResponse.
                                      return (sumFiles (data compareResponse)))))))))"

definition getLinesOfCode :: "config \<Rightarrow> api \<Rightarrow> string \<Rightarrow> string option \<Rightarrow> line_delta action" where
  "getLinesOfCode cfg srv repo branch =
     (if skipLineStats cfg then return no_lines
      else
        andThen (targetBranch srv repo branch)
          (\<lambda>b. tryCatch (lineStats cfg srv repo b)
                  (\<lambda>error. case thrown_status error of
                              Some s \<Rightarrow> if s = 409 \<or> s = 404 then return no_lines
                                        else throw error
                            | None \<Rightarrow> throw error)))"

subsection \<open>getRepoStats\<close>

record RepoInfo =
  name :: string
  isArchived :: bool

record RepoStats =
  stats_name :: string
  stats_isArchived :: bool
  commits :: int
  linesAdded :: int
  linesDeleted :: int
  totalLines :: int
  pullRequests :: int
  contributors :: int
  contributorsList :: "string list"
  issuesCreated :: int
  issuesClosed :: int
  releases :: int

definition empty_history_status :: "nat \<Rightarrow> bool" where
  "empty_history_status s = (s = 404 \<or> s = 409 \<or> s = 422)"

definition isEmptyRepoError :: "thrown \<Rightarrow> bool" where
  "isEmptyRepoError error =
     ((case error of
         GitHubApiError r opn original \<Rightarrow>
           (case status original of Some s \<Rightarrow> empty_history_status s | None \<Rightarrow> False)
       | _ \<Rightarrow> False) \<or>
      (case thrown_status error of Some s \<Rightarrow> empty_history_status s | None \<Rightarrow> False))"

definition emptyStats :: "RepoInfo \<Rightarrow> RepoStats" where
  "emptyStats repoInfo =
     \<lparr>stats_name = name repoInfo, stats_isArchived = isArchived repoInfo, commits = 0,
      linesAdded = 0, linesDeleted = 0, totalLines = 0, pullRequests = 0, contributors = 0,
      contributorsList = [], issuesCreated = 0, issuesClosed = 0, releases = 0\<rparr>"

definition safe :: "'a action \<Rightarrow> 'a \<Rightarrow> 'a action" where
  "safe fn defaultValue =
     tryCatch fn (\<lambda>error. if isEmptyRepoError error then return defaultValue else throw error)"

subsection \<open>Promise.all over the five collectors\<close>

text \<open>
  \<^verbatim>\<open>getRepoStats\<close> hands the five collectors to \<^verbatim>\<open>Promise.all\<close>. The five promises
  exist at once and nothing cancels any of them: each collector runs to its end, whatever
  becomes of the others. The promise of \<^verbatim>\<open>Promise.all\<close> rejects with the first
  rejection among the five, and fulfils with the five values when none rejects.

  \<open>order\<close> is the order in which the five promises settle. It depends on how long the
  service takes to answer and on the sleeps of the collectors (a collector that sleeps
  before a retry settles after one whose only request is refused at once), which the model
  does not measure: \<open>order\<close> is an input of the model, as the settle order of a batch is for
  \<^verbatim>\<open>processRepos\<close>, and the properties proved of \<open>getRepoStats\<close> hold for every order.
  A collector that \<open>order\<close> names twice counts once, and one that it leaves out settles
  after those it names, in the order of the array.

  The model takes the collectors one at a time, in the order in which they settle: the
  events of one collector stay together in the trace, and a collector reads the rate-limit
  fields as the collectors that settled before it left them. How the requests of different
  collectors interleave is not modelled. Every collector starts at the instant
  \<^verbatim>\<open>Promise.all\<close> is called and sleeps on its own (\<open>forked\<close>); the clock afterwards is
  the latest of theirs. The state that comes with the outcome is the one reached when all
  five have run: after a rejection it holds the events of the collectors that were still
  running.
\<close>

datatype collector = CommitCount | LinesOfCode | PullRequestCount | Contributors | ReleaseCount

definition settling :: "collector list \<Rightarrow> collector list" where
  "settling order =
     remdups order @
     filter (\<lambda>k. k \<notin> set order)
       [CommitCount, LinesOfCode, PullRequestCount, Contributors, ReleaseCount]"

text \<open>
  What has become of the five promises: \<open>Unfinished\<close> for one that has not settled, and
  the first rejection seen so far.
\<close>

record settlement =
  commits_settled :: "int outcome"
  lines_settled :: "line_delta outcome"
  pulls_settled :: "int outcome"
  contributors_settled :: "string list outcome"
  releases_settled :: "int outcome"
  rejected :: "thrown option"

definition pending :: settlement where
  "pending =
     \<lparr>commits_settled = Unfinished, lines_settled = Unfinished, pulls_settled = Unfinished,
      contributors_settled = Unfinished, releases_settled = Unfinished, rejected = None\<rparr>"

definition firstRejection :: "thrown option \<Rightarrow> 'a outcome \<Rightarrow> thrown option" where
  "firstRejection seen res =
     (case seen of
        Some e \<Rightarrow> Some e
      | None \<Rightarrow> (case res of Threw e \<Rightarrow> Some e | _ \<Rightarrow> None))"

definition forked :: "int \<Rightarrow> 'a action \<Rightarrow> 'a action" where
  "forked start m st =
     (case m (st\<lparr>clock := start\<rparr>) of
        (res, st') \<Rightarrow> (res, st'\<lparr>clock := max (clock st) (clock st')\<rparr>))"

text \<open>Go on with the outcome of \<open>m\<close>, whatever it is.\<close>

definition whenSettled :: "'a action \<Rightarrow> ('a outcome \<Rightarrow> 'b action) \<Rightarrow> 'b action" where
  "whenSettled m f st = (case m st of (res, st') \<Rightarrow> f res st')"

fun settleAll :: "collector list \<Rightarrow> int action \<Rightarrow> line_delta action \<Rightarrow> int action \<Rightarrow>
    string list action \<Rightarrow> int action \<Rightarrow> int \<Rightarrow> settlement \<Rightarrow> settlement action" where
  "settleAll [] commitCount lines pullRequestCount authors releaseCount start slots st =
     (Returned slots, st)"
| "settleAll (k # ks) commitCount lines pullRequestCount authors releaseCount start slots st =
     (case k of
        CommitCount \<Rightarrow>
          whenSettled (forked start commitCount)
            (\<lambda>res. settleAll ks commitCount lines pullRequestCount authors releaseCount start
                      (slots\<lparr>commits_settled := res,
                         rejected := firstRejection (rejected slots) res\<rparr>))
            st
      | LinesOfCode \<Rightarrow>
          whenSettled (forked start lines)
            (\<lambda>res. settleAll ks commitCount lines pullRequestCount authors releaseCount start
                      (slots\<lparr>lines_settled := res,
                         rejected := firstRejection (rejected slots) res\<rparr>))
            st
      | PullRequestCount \<Rightarrow>
          whenSettled (forked start pullRequestCount)
            (\<lambda>res. settleAll ks commitCount lines pullRequestCount authors releaseCount start
                      (slots\<lparr>pulls_settled := res,
                         rejected := firstRejection (rejected slots) res\<rparr>))
            st
      | Contributors \<Rightarrow>
          whenSettled (forked start authors)
            (\<lambda>res. settleAll ks commitCount lines pullRequestCount authors releaseCount start
                      (slots\<lparr>contributors_settled := res,
                         rejected := firstRejection (rejected slots) res\<rparr>))
            st
      | ReleaseCount \<Rightarrow>
          whenSettled (forked start releaseCount)
            (\<lambda>res. settleAll ks commitCount lines pullRequestCount authors releaseCount start
                      (slots\<lparr>releases_settled := res,
                         rejected := firstRejection (rejected slots) res\<rparr>))
            st)"

text \<open>
  The outcome of \<^verbatim>\<open>Promise.all\<close> once the five have run: the first rejection if there
  is one, the five values if all five fulfilled; it stays pending when a collector never
  settles and none rejects.
\<close>

definition allSettled :: "settlement \<Rightarrow>
    (int \<times> line_delta \<times> int \<times> string list \<times> int) action" where
  "allSettled slots =
     (case rejected slots of
        Some error \<Rightarrow> throw error
      | None \<Rightarrow>
          (case commits_settled slots of
             Returned commitCount \<Rightarrow>
               (case lines_settled slots of
                  Returned lines \<Rightarrow>
                    (case pulls_settled slots of
                       Returned pullRequestCount \<Rightarrow>
                         (case contributors_settled slots of
                            Returned authors \<Rightarrow>
                              (case releases_settled slots of
                                 Returned releaseCount \<Rightarrow>
                                   return (commitCount, lines, pullRequestCount, authors,
                                           releaseCount)
                               | _ \<Rightarrow> (\<lambda>st. (Unfinished, st)))
                          | _ \<Rightarrow> (\<lambda>st. (Unfinished, st)))
                     | _ \<Rightarrow> (\<lambda>st. (Unfinished, st)))
                | _ \<Rightarrow> (\<lambda>st. (Unfinished, st)))
           | _ \<Rightarrow> (\<lambda>st. (Unfinished, st))))"

definition promiseAll :: "collector list \<Rightarrow> int action \<Rightarrow> line_delta action \<Rightarrow> int action \<Rightarrow>
    string list action \<Rightarrow> int action \<Rightarrow> (int \<times> line_delta \<times> int \<times> string list \<times> int) action" where
  "promiseAll order commitCount lines pullRequestCount authors releaseCount st =
     andThen
       (settleAll (settling order) commitCount lines pullRequestCount authors releaseCount
          (clock st) pending)
       allSettled st"

subsection \<open>The collection of one repository\<close>

definition collectAll :: "collector list \<Rightarrow> nat \<Rightarrow> config \<Rightarrow> api \<Rightarrow> RepoInfo \<Rightarrow> string \<Rightarrow>
    RepoStats action" where
  "collectAll order fuel cfg srv repoInfo branch =
     andThen
       (promiseAll order
          (safe (getCommitCount fuel cfg srv (name repoInfo) (Some branch)) 0)
          (safe (getLinesOfCode cfg srv (name repoInfo) (Some branch)) no_lines)
          (safe (getPullRequestCount fuel cfg srv (name repoInfo) (Some branch)) 0)
          (safe (getContributors fuel cfg srv (name repoInfo) (Some branch)) [])
          (safe (getReleaseCount fuel cfg srv (name repoInfo)) 0))
       (\<lambda>(commitCount, lines, pullRequestCount, authors, releaseCount).
          return
            \<lparr>stats_name = name repoInfo, stats_isArchived = isArchived repoInfo,
             commits = commitCount, linesAdded = added lines,
             linesDeleted = deleted lines, totalLines = added lines - deleted lines,
             pullRequests = pullRequestCount, contributors = int (length authors),
             contributorsList = authors, issuesCreated = 0, issuesClosed = 0,
             releases = releaseCount\<rparr>)"

definition resolveBranch :: "(string \<Rightarrow> string action) \<Rightarrow> RepoInfo \<Rightarrow> string option action" where
  "resolveBranch lookup repoInfo =
     tryCatch
       (andThen (lookup (name repoInfo)) (\<lambda>b. return (Some b)))
       (\<lambda>error. if isEmptyRepoError error then return None else throw error)"

definition getRepoStats :: "collector list \<Rightarrow> nat \<Rightarrow> config \<Rightarrow> api \<Rightarrow> RepoInfo \<Rightarrow>
    RepoStats action" where
  "getRepoStats order fuel cfg srv repoInfo =
     andThen (resolveBranch (getDefaultBranch srv) repoInfo)
       (\<lambda>resolved.
          (case resolved of
             None \<Rightarrow> return (emptyStats repoInfo)
           | Some branch \<Rightarrow> collectAll order fuel cfg srv repoInfo branch))"

section \<open>The batch scheduler\<close>

text \<open>
  \<^verbatim>\<open>processRepos\<close> of \<^verbatim>\<open>src/index.ts\<close>. \<open>collect repo\<close> is how the promise
  \<^verbatim>\<open>client.getRepoStats(repo)\<close> settles and \<open>order i\<close> the order in which the promises
  of the batch that starts at index \<open>i\<close> settle (positions in the batch).
  \<^verbatim>\<open>Promise.all\<close> keeps one slot per promise, fills a slot when its promise fulfils,
  rejects with the first rejection, and fulfils with the slots once all are filled.
\<close>

definition slice :: "'a list \<Rightarrow> nat \<Rightarrow> nat \<Rightarrow> 'a list" where
  "slice xs start finish = take (finish - start) (drop start xs)"

fun settle :: "nat list \<Rightarrow> (thrown + 'a) list \<Rightarrow> 'a option list \<Rightarrow> thrown + 'a option list" where
  "settle [] promises slots = Inr slots"
| "settle (k # ks) promises slots =
     (if k < length promises then
        (case promises ! k of
           Inl e \<Rightarrow> Inl e
         | Inr v \<Rightarrow> settle ks promises (slots[k := Some v]))
      else settle ks promises slots)"

definition promise_all :: "nat list \<Rightarrow> (thrown + 'a) list \<Rightarrow> (thrown + 'a list) option" where
  "promise_all settled promises =
     (case settle settled promises (replicate (length promises) None) of
        Inl e \<Rightarrow> Some (Inl e)
      | Inr slots \<Rightarrow> (case those slots of Some vs \<Rightarrow> Some (Inr vs) | None \<Rightarrow> None))"

definition store :: "(nat \<times> RepoStats) list \<Rightarrow> RepoStats option list \<Rightarrow> RepoStats option list" where
  "store batchResults results =
     fold (\<lambda>(index, repoStats) rs. rs[index := Some repoStats]) batchResults results"

text \<open>
  The array \<^verbatim>\<open>new Array(repos.length)\<close> is a list of optional values, \<open>None\<close> for a
  hole. With a concurrency of zero the index never advances: the loop does not end, which
  is the value \<open>None\<close>. The second component of the result lists the batches in the
  order they were dispatched.
\<close>

function processRepos_from :: "(RepoInfo \<Rightarrow> thrown + RepoStats) \<Rightarrow> (nat \<Rightarrow> nat list) \<Rightarrow>
    RepoInfo list \<Rightarrow> nat \<Rightarrow> nat \<Rightarrow> RepoStats option list \<Rightarrow> RepoInfo list list \<Rightarrow>
    (thrown + RepoStats option list \<times> RepoInfo list list) option" where
  "processRepos_from collect order repos concurrency i results dispatched =
     (if i < length repos then
        (if concurrency = 0 then None
         else
           (let batch = slice repos i (min (i + concurrency) (length repos));
                batchIndices = map (\<lambda>idx. i + idx) [0..<length batch];
                promises = map (\<lambda>(repo, batchIdx).
                                  case collect repo of
                                    Inl e \<Rightarrow> Inl e
                                  | Inr repoStats \<Rightarrow> Inr (batchIndices ! batchIdx, repoStats))
                             (zip batch [0..<length batch])
            in (case promise_all (order i) promises of
                  None \<Rightarrow> None
                | Some (Inl e) \<Rightarrow> Some (Inl e)
                | Some (Inr batchResults) \<Rightarrow>
                    processRepos_from collect order repos concurrency (i + concurrency)
                      (store batchResults results) (dispatched @ [batch]))))
      else Some (Inr (results, dispatched)))"
  by pat_completeness auto
termination
  by (relation "measure (\<lambda>(collect, order, repos, concurrency, i, rest). length repos - i)")
     auto

definition processRepos :: "(RepoInfo \<Rightarrow> thrown + RepoStats) \<Rightarrow> (nat \<Rightarrow> nat list) \<Rightarrow>
    RepoInfo list \<Rightarrow> nat \<Rightarrow> (thrown + RepoStats option list \<times> RepoInfo list list) option" where
  "processRepos collect order repos concurrency =
     processRepos_from collect order repos concurrency 0 (replicate (length repos) None) []"

section \<open>A hosted repository\<close>

text \<open>
  The service is not part of the repository under study. For the properties that speak of
  a repository's history, this is the contract of the endpoints that the client's queries
  rely on: lists come newest first; \<^verbatim>\<open>since\<close> and \<^verbatim>\<open>until\<close> keep the commits
  whose time lies between them, bounds included; \<^verbatim>\<open>per_page\<close> and \<^verbatim>\<open>page\<close> cut the
  list into consecutive pages, the first page when \<^verbatim>\<open>page\<close> is absent; a request about
  another repository, or for a commit the history does not hold, is answered 404; listing
  the commits of a repository without any is answered 409. Every request is answered at
  the first attempt and no answer carries rate-limit headers.
\<close>

record repository =
  repo_name :: string
  default_branch :: string
  history :: "commit list"
  diff :: "string \<Rightarrow> string \<Rightarrow> diff_file list option"
  pull_requests :: "pull list"
  release_list :: "release list"
  issue_list :: "issue list"

definition answer :: "'a \<Rightarrow> 'a response" where
  "answer v = \<lparr>data = v, headers = \<lparr>x_ratelimit_remaining = None, x_ratelimit_reset = None\<rparr>\<rparr>"

definition fulfilled :: "'a \<Rightarrow> js_error + 'a response" where
  "fulfilled v = Inr (answer v)"

definition not_found :: js_error where
  "not_found = \<lparr>message = ''Not Found'', status = Some 404\<rparr>"

definition repository_empty :: js_error where
  "repository_empty = \<lparr>message = ''Git Repository is empty.'', status = Some 409\<rparr>"

definition page_of :: "nat \<Rightarrow> nat \<Rightarrow> 'a list \<Rightarrow> 'a list" where
  "page_of per_page page xs = take per_page (drop ((page - 1) * per_page) xs)"

definition in_window :: "int option \<Rightarrow> int option \<Rightarrow> commit \<Rightarrow> bool" where
  "in_window since until c =
     ((case since of Some t \<Rightarrow> t \<le> committed_at c | None \<Rightarrow> True) \<and>
      (case until of Some t \<Rightarrow> committed_at c \<le> t | None \<Rightarrow> True))"

fun hosted_repos_get :: "repository \<Rightarrow> nat \<Rightarrow> request \<Rightarrow> js_error + string response" where
  "hosted_repos_get r n (ReposGet repo) =
     (if repo = repo_name r then fulfilled (default_branch r) else Inl not_found)"
| "hosted_repos_get r n other = Inl not_found"

fun hosted_listCommits :: "repository \<Rightarrow> nat \<Rightarrow> request \<Rightarrow> js_error + commit list response" where
  "hosted_listCommits r n (ListCommits repo branch since until per_page page) =
     (if repo \<noteq> repo_name r then Inl not_found
      else if history r = [] then Inl repository_empty
      else fulfilled
             (page_of per_page (case page of Some p \<Rightarrow> p | None \<Rightarrow> 1)
                (filter (in_window since until) (history r))))"
| "hosted_listCommits r n other = Inl not_found"

fun hosted_getCommit :: "repository \<Rightarrow> nat \<Rightarrow> request \<Rightarrow> js_error + commit response" where
  "hosted_getCommit r n (GetCommit repo ref) =
     (if repo \<noteq> repo_name r then Inl not_found
      else (case find (\<lambda>c. sha c = ref) (history r) of
              Some c \<Rightarrow> fulfilled c
            | None \<Rightarrow> Inl not_found))"
| "hosted_getCommit r n other = Inl not_found"

fun hosted_compareCommits :: "repository \<Rightarrow> nat \<Rightarrow> request \<Rightarrow>
    js_error + diff_file list option response" where
  "hosted_compareCommits r n (CompareCommits repo b h) =
     (if repo = repo_name r then fulfilled (diff r b h) else Inl not_found)"
| "hosted_compareCommits r n other = Inl not_found"

fun hosted_pulls_list :: "repository \<Rightarrow> nat \<Rightarrow> request \<Rightarrow> js_error + pull list response" where
  "hosted_pulls_list r n (PullsList repo branch per_page page) =
     (if repo = repo_name r then fulfilled (page_of per_page page (pull_requests r))
      else Inl not_found)"
| "hosted_pulls_list r n other = Inl not_found"

fun hosted_issues :: "repository \<Rightarrow> nat \<Rightarrow> request \<Rightarrow> js_error + issue list response" where
  "hosted_issues r n (IssuesListForRepo repo since per_page page) =
     (if repo = repo_name r then fulfilled (page_of per_page page (issue_list r))
      else Inl not_found)"
| "hosted_issues r n other = Inl not_found"

fun hosted_listReleases :: "repository \<Rightarrow> nat \<Rightarrow> request \<Rightarrow> js_error + release list response" where
  "hosted_listReleases r n (ListReleases repo per_page page) =
     (if repo = repo_name r then fulfilled (page_of per_page page (release_list r))
      else Inl not_found)"
| "hosted_listReleases r n other = Inl not_found"

definition hosted :: "repository \<Rightarrow> api" where
  "hosted r =
     \<lparr>repos_get = hosted_repos_get r, listCommits = hosted_listCommits r,
      getCommit = hosted_getCommit r, compareCommits = hosted_compareCommits r,
      pulls_list = hosted_pulls_list r, issues_listForRepo = hosted_issues r,
      listReleases = hosted_listReleases r\<rparr>"

section \<open>Runs and the events they add\<close>

text \<open>
  \<open>emits m Q\<close>: every run of \<open>m\<close> only appends to the trace, and its outcome and the
  appended events satisfy \<open>Q\<close>. The predicates that follow are such \<open>Q\<close>.

  \<open>blames G repo\<close>: when the last appended event is a failed request that \<open>G\<close> selects,
  the outcome is that failure, thrown as a \<open>GitHubApiError\<close> of the repository.
\<close>

definition ends_with_failure :: "event list \<Rightarrow> request \<Rightarrow> js_error \<Rightarrow> bool" where
  "ends_with_failure evs req e = (evs \<noteq> [] \<and> last evs = Failed req e)"

definition emits :: "'a action \<Rightarrow> ('a outcome \<Rightarrow> event list \<Rightarrow> bool) \<Rightarrow> bool" where
  "emits m Q = (\<forall>st. \<exists>evs. trace (snd (m st)) = trace st @ evs \<and> Q (fst (m st)) evs)"

definition blames :: "(request \<Rightarrow> js_error \<Rightarrow> bool) \<Rightarrow> string \<Rightarrow> 'a outcome \<Rightarrow> event list \<Rightarrow> bool" where
  "blames G repo res evs =
     (\<forall>req e. ends_with_failure evs req e \<longrightarrow> G req e \<longrightarrow>
        (\<exists>opn. res = Threw (GitHubApiError repo opn e)))"

text \<open>\<open>only P\<close>: every appended event satisfies \<open>P\<close>.\<close>

definition only :: "(event \<Rightarrow> bool) \<Rightarrow> 'a outcome \<Rightarrow> event list \<Rightarrow> bool" where
  "only P res evs = list_all P evs"

text \<open>A listing of releases, and an event that is not the failure of any other request.\<close>

fun listsReleases :: "request \<Rightarrow> bool" where
  "listsReleases (ListReleases repo per_page page) = True"
| "listsReleases req = False"


text \<open>An event that is not a request for the issues of a repository.\<close>

fun listsIssues :: "request \<Rightarrow> bool" where
  "listsIssues (IssuesListForRepo repo since per_page page) = True"
| "listsIssues req = False"

definition apart_from_issues :: "event \<Rightarrow> bool" where
  "apart_from_issues ev =
     (case ev of
        Succeeded req \<Rightarrow> \<not> listsIssues req
      | Failed req e \<Rightarrow> \<not> listsIssues req
      | Slept ms \<Rightarrow> True)"

text \<open>The requests of a trace, in the order they were sent.\<close>

fun requests :: "event list \<Rightarrow> request list" where
  "requests [] = []"
| "requests (Succeeded req # evs) = req # requests evs"
| "requests (Failed req e # evs) = req # requests evs"
| "requests (Slept ms # evs) = requests evs"

text \<open>
  The operation names under which the client sends each kind of request: the third
  argument of \<^verbatim>\<open>withRetry\<close> at the call sites.
\<close>

fun operations :: "request \<Rightarrow> string list" where
  "operations (ReposGet repo) = [''fetching default branch'']"
| "operations (ListCommits repo branch since until per_page page) =
     [''fetching commits'', ''finding end commit'', ''finding base commit'',
      ''finding first commit'', ''fetching contributors'']"
| "operations (GetCommit repo ref) = [''getting commit parent'']"
| "operations (CompareCommits repo b h) = [''comparing commits'']"
| "operations (PullsList repo branch per_page page) = [''fetching pull requests'']"
| "operations (IssuesListForRepo repo since per_page page) = [''fetching issues'']"
| "operations (ListReleases repo per_page page) = [''fetching releases'']"

text \<open>
  A failure with one of the statuses that stand for missing history, and a fatal failure:
  one that is neither retryable nor of that kind.
\<close>

definition empty_history :: "js_error \<Rightarrow> bool" where
  "empty_history e = (status e = Some 404 \<or> status e = Some 409 \<or> status e = Some 422)"

definition fatal :: "js_error \<Rightarrow> bool" where
  "fatal e = (\<not> isRetryableError e \<and> \<not> empty_history e)"

text \<open>
  \<open>wraps repo\<close>, for a method that lets the errors of \<^verbatim>\<open>withRetry\<close> through: a failed
  request whose error is not retryable is the last event of the run, and the run throws it
  as a \<open>GitHubApiError\<close> with the repository, one of the operation names of the request and
  the error itself; and whatever the run throws is the last event of the run, a failed
  request other than a listing of releases, wrapped in that way.
\<close>

definition wraps :: "string \<Rightarrow> 'a outcome \<Rightarrow> event list \<Rightarrow> bool" where
  "wraps repo res evs =
     ((\<forall>pre req e post. evs = pre @ Failed req e # post \<longrightarrow> \<not> isRetryableError e \<longrightarrow>
         post = [] \<and>
         (\<exists>opn \<in> set (operations req). res = Threw (GitHubApiError repo opn e))) \<and>
      (\<forall>x. res = Threw x \<longrightarrow>
         (\<exists>pre req e. evs = pre @ [Failed req e] \<and> \<not> listsReleases req \<and>
            (\<exists>opn \<in> set (operations req). x = GitHubApiError repo opn e))))"


text \<open>
  \<open>reports repo\<close>, for a run made of several collectors: when a request other than a
  listing of releases has failed with a fatal error, the run throws; and whatever the run
  throws is a \<open>GitHubApiError\<close> of the repository around a failed request of the run, not a
  listing of releases, whose status is not one of 404, 409 and 422, under one of the
  operation names of that request.
\<close>

definition reports :: "string \<Rightarrow> 'a outcome \<Rightarrow> event list \<Rightarrow> bool" where
  "reports repo res evs =
     ((\<forall>req e. Failed req e \<in> set evs \<longrightarrow> \<not> listsReleases req \<longrightarrow> fatal e \<longrightarrow>
         (\<exists>x. res = Threw x)) \<and>
      (\<forall>x. res = Threw x \<longrightarrow>
         (\<exists>req e. Failed req e \<in> set evs \<and> \<not> listsReleases req \<and> \<not> empty_history e \<and>
            (\<exists>opn \<in> set (operations req). x = GitHubApiError repo opn e))))"


section \<open>Sample inputs\<close>

definition sample_config :: config where
  "sample_config = \<lparr>startDate = 1000, endDate = 2000, skipLineStats = False, options_pageSize = 2\<rparr>"

definition no_diff :: "string \<Rightarrow> string \<Rightarrow> diff_file list option" where
  "no_diff b h = Some []"

definition alpha :: RepoInfo where
  "alpha = \<lparr>name = ''alpha'', isArchived = False\<rparr>"

definition rate_limited :: js_error where
  "rate_limited = \<lparr>message = ''API rate limit exceeded'', status = Some 403\<rparr>"

definition bad_gateway :: js_error where
  "bad_gateway = \<lparr>message = ''Bad Gateway'', status = Some 502\<rparr>"

definition server_error :: js_error where
  "server_error = \<lparr>message = ''Internal Server Error'', status = Some 500\<rparr>"

definition root_commit :: commit where
  "root_commit =
     \<lparr>sha = ''c1'', committed_at = 1500, author_login = Some ''ann'', author_email = None,
      parents = [], stats = Some \<lparr>additions = Some 10, deletions = Some 0\<rparr>\<rparr>"

definition one_commit_repository :: repository where
  "one_commit_repository =
     \<lparr>repo_name = ''alpha'', default_branch = ''main'', history = [root_commit],
      diff = no_diff, pull_requests = [], release_list = [], issue_list = []\<rparr>"

definition releases_down :: api where
  "releases_down = (hosted one_commit_repository)\<lparr>listReleases := \<lambda>n req. Inl server_error\<rparr>"


definition pulls_config :: config where
  "pulls_config = \<lparr>startDate = 200, endDate = 400, skipLineStats = False, options_pageSize = 1\<rparr>"

definition five_pulls_repository :: repository where
  "five_pulls_repository =
     \<lparr>repo_name = ''alpha'', default_branch = ''main'', history = [root_commit],
      diff = no_diff,
      pull_requests = map (\<lambda>t. \<lparr>pull_created_at = t\<rparr>) [500, 400, 300, 200, 100],
      release_list = [], issue_list = []\<rparr>"

definition beta :: RepoInfo where
  "beta = \<lparr>name = ''beta'', isArchived = True\<rparr>"

definition gamma :: RepoInfo where
  "gamma = \<lparr>name = ''gamma'', isArchived = False\<rparr>"

definition delta :: RepoInfo where
  "delta = \<lparr>name = ''delta'', isArchived = False\<rparr>"

text \<open>In every batch of two, the second promise settles before the first.\<close>

definition second_first :: "nat \<Rightarrow> nat list" where
  "second_first i = [1, 0]"


text \<open>The repository with one commit, on a service that cannot find any commit by its name.\<close>

definition commit_lookup_down :: api where
  "commit_lookup_down = (hosted one_commit_repository)\<lparr>getCommit := \<lambda>n req. Inl not_found\<rparr>"

text \<open>
  The same repository on a service that refuses every listing of commits with status 502
  and every listing of pull requests with status 500.
\<close>

definition history_and_pulls_down :: api where
  "history_and_pulls_down =
     (hosted one_commit_repository)
       \<lparr>listCommits := \<lambda>n req. Inl bad_gateway, pulls_list := \<lambda>n req. Inl server_error\<rparr>"

text \<open>
  Two repositories without any commit in the range of \<open>sample_config\<close>: one whose only
  commit is older, one whose only commit is newer.
\<close>

definition old_commit :: commit where
  "old_commit =
     \<lparr>sha = ''c0'', committed_at = 500, author_login = Some ''ann'', author_email = None,
      parents = [], stats = Some \<lparr>additions = Some 3, deletions = Some 1\<rparr>\<rparr>"

definition late_commit :: commit where
  "late_commit =
     \<lparr>sha = ''c9'', committed_at = 3000, author_login = Some ''bob'', author_email = None,
      parents = [''c0''], stats = Some \<lparr>additions = Some 5, deletions = Some 2\<rparr>\<rparr>"

definition dormant_repository :: repository where
  "dormant_repository =
     \<lparr>repo_name = ''alpha'', default_branch = ''main'', history = [old_commit],
      diff = no_diff, pull_requests = [\<lparr>pull_created_at = 1500\<rparr>], release_list = [],
      issue_list = []\<rparr>"

definition later_repository :: repository where
  "later_repository =
     \<lparr>repo_name = ''alpha'', default_branch = ''main'', history = [late_commit],
      diff = no_diff, pull_requests = [], release_list = [], issue_list = []\<rparr>"

text \<open>
  A repository with three commits, all in the range of \<open>sample_config\<close>, the oldest being
  the root commit; \<open>sample_config\<close> asks for pages of two.
\<close>

definition second_commit :: commit where
  "second_commit =
     \<lparr>sha = ''c2'', committed_at = 1600, author_login = Some ''bob'', author_email = None,
      parents = [''c1''], stats = Some \<lparr>additions = Some 3, deletions = Some 1\<rparr>\<rparr>"

definition third_commit :: commit where
  "third_commit =
     \<lparr>sha = ''c3'', committed_at = 1700, author_login = Some ''ann'', author_email = None,
      parents = [''c2''], stats = Some \<lparr>additions = Some 4, deletions = Some 1\<rparr>\<rparr>"

definition sample_diff :: "string \<Rightarrow> string \<Rightarrow> diff_file list option" where
  "sample_diff b h =
     (if b = ''c1'' \<and> h = ''c3''
      then Some [\<lparr>file_additions = Some 7, file_deletions = Some 2\<rparr>]
      else Some [])"

definition three_commit_repository :: repository where
  "three_commit_repository =
     \<lparr>repo_name = ''alpha'', default_branch = ''main'',
      history = [third_commit, second_commit, root_commit], diff = sample_diff,
      pull_requests = [], release_list = [], issue_list = []\<rparr>"

section \<open>Properties\<close>

subsection \<open>The quota throttle\<close>

text \<open>
  C9. The throttle waits exactly when fewer than 100 requests remain and the computed
  wait, \<open>max 0 (reset - now) + 5\<close> seconds with \<open>now\<close> the clock in whole seconds, is below
  3600 seconds; it then sleeps that many seconds. With 100 or more requests remaining, or
  a computed wait of 3600 seconds or more, the state is left as it is: the caller goes on
  without waiting.
\<close>

theorem checkRateLimit_throttle:
  "checkRateLimit st =
     (if rateLimitRemaining st < 100 \<and>
         max 0 (rateLimitReset st - clock st div 1000) + 5 < 3600
      then sleep ((max 0 (rateLimitReset st - clock st div 1000) + 5) * 1000) st
      else st)"
  by (simp add: checkRateLimit_def Let_def)

theorem checkRateLimit_throttle_witness:
  "trace (checkRateLimit
            ((new_client 1700000000123)
               \<lparr>rateLimitRemaining := 50, rateLimitReset := 1700000010\<rparr>)) = [Slept 15000] \<and>
   trace (checkRateLimit
            ((new_client 1700000000123)
               \<lparr>rateLimitRemaining := 100, rateLimitReset := 1700000010\<rparr>)) = [] \<and>
   trace (checkRateLimit
            ((new_client 1700000000123)
               \<lparr>rateLimitRemaining := 50, rateLimitReset := 1700003595\<rparr>)) = []"
  using checkRateLimit_throttle
          [of "(new_client 1700000000123)
                 \<lparr>rateLimitRemaining := 50, rateLimitReset := 1700000010\<rparr>"]
        checkRateLimit_throttle
          [of "(new_client 1700000000123)
                 \<lparr>rateLimitRemaining := 100, rateLimitReset := 1700000010\<rparr>"]
        checkRateLimit_throttle
          [of "(new_client 1700000000123)
                 \<lparr>rateLimitRemaining := 50, rateLimitReset := 1700003595\<rparr>"]
  by (simp add: new_client_def sleep_def)

subsection \<open>Retry and backoff\<close>

lemma issued_checkRateLimit: "issued (checkRateLimit st) = issued st"
  by (simp add: checkRateLimit_def sleep_def Let_def)

declare withRetry_from.simps [simp del]

lemma withRetry_from_retry:
  assumes "attempt < MAX_RETRIES" and "invoke req oper st = (Inl e, st1)"
    and "isRetryableError e"
  shows "withRetry_from attempt le req oper repo opn st =
         withRetry_from (attempt + 1) (Some e) req oper repo opn (sleep (retryDelay attempt e) st1)"
  using assms by (subst withRetry_from.simps) simp

lemma withRetry_from_throw:
  assumes "attempt \<le> MAX_RETRIES" and "invoke req oper st = (Inl e, st1)"
    and "\<not> isRetryableError e \<or> attempt = MAX_RETRIES"
  shows "withRetry_from attempt le req oper repo opn st =
         (Threw (GitHubApiError repo opn e), st1)"
  using assms by (subst withRetry_from.simps) auto

lemma withRetry_from_return:
  assumes "attempt \<le> MAX_RETRIES" and "invoke req oper st = (Inr r, st1)"
  shows "withRetry_from attempt le req oper repo opn st =
         (Returned r, updateRateLimit (headers r) st1)"
  using assms by (subst withRetry_from.simps) simp

text \<open>
  C5. An operation whose every call fails with a retryable error is called exactly three
  times by \<open>withRetry\<close>, with the two backoff sleeps between the calls, and the third
  failure is thrown as a \<open>GitHubApiError\<close> that holds the repository name, the operation
  name and the original error (so its HTTP status, when it has one). A call that fails
  with an error that is not retryable is thrown wrapped in the same way after that one
  call, without a sleep.
\<close>

theorem withRetry_three_attempts:
  "((\<forall>n. \<exists>e. oper n = Inl e \<and> isRetryableError e) \<longrightarrow>
      (\<exists>e1 e2 e3 st'.
         oper (issued st) = Inl e1 \<and> oper (issued st + 1) = Inl e2 \<and>
         oper (issued st + 2) = Inl e3 \<and>
         withRetry req oper repo opn st = (Threw (GitHubApiError repo opn e3), st') \<and>
         issued st' = issued st + 3 \<and>
         trace st' = trace (checkRateLimit st) @
           [Failed req e1, Slept (retryDelay 1 e1), Failed req e2, Slept (retryDelay 2 e2),
            Failed req e3])) \<and>
   (\<forall>e. oper (issued st) = Inl e \<and> \<not> isRetryableError e \<longrightarrow>
      (\<exists>st'. withRetry req oper repo opn st = (Threw (GitHubApiError repo opn e), st') \<and>
         issued st' = issued st + 1 \<and>
         trace st' = trace (checkRateLimit st) @ [Failed req e]))"
proof (intro conjI impI allI)
  assume always: "\<forall>n. \<exists>e. oper n = Inl e \<and> isRetryableError e"
  obtain e1 where e1: "oper (issued st) = Inl e1" "isRetryableError e1"
    using always by blast
  obtain e2 where e2: "oper (issued st + 1) = Inl e2" "isRetryableError e2"
    using always by blast
  obtain e3 where e3: "oper (issued st + 2) = Inl e3" "isRetryableError e3"
    using always by blast
  define s0 where "s0 = checkRateLimit st"
  have i0: "issued s0 = issued st"
    by (simp add: s0_def issued_checkRateLimit)
  define s1 where "s1 = s0\<lparr>issued := issued s0 + 1, trace := trace s0 @ [Failed req e1]\<rparr>"
  define s1' where "s1' = sleep (retryDelay 1 e1) s1"
  define s2 where "s2 = s1'\<lparr>issued := issued s1' + 1, trace := trace s1' @ [Failed req e2]\<rparr>"
  define s2' where "s2' = sleep (retryDelay 2 e2) s2"
  define s3 where "s3 = s2'\<lparr>issued := issued s2' + 1, trace := trace s2' @ [Failed req e3]\<rparr>"
  have i1: "issued s1' = issued st + 1" by (simp add: s1'_def s1_def sleep_def i0)
  have i2: "issued s2' = issued st + 2" by (simp add: s2'_def s2_def sleep_def i1)
  have inv1: "invoke req oper s0 = (Inl e1, s1)"
    using e1 i0 by (simp add: invoke_def s1_def)
  have inv2: "invoke req oper s1' = (Inl e2, s2)"
    using e2 i1 by (simp add: invoke_def s2_def)
  have inv3: "invoke req oper s2' = (Inl e3, s3)"
    using e3 i2 by (simp add: invoke_def s3_def)
  have "withRetry req oper repo opn st = withRetry_from 1 None req oper repo opn s0"
    by (simp add: withRetry_def s0_def)
  also have "\<dots> = withRetry_from 2 (Some e1) req oper repo opn s1'"
  proof -
    have "(1::nat) < MAX_RETRIES" by (simp add: MAX_RETRIES_def)
    from withRetry_from_retry [OF this inv1 e1(2), of None repo opn]
    show ?thesis by (simp only: s1'_def one_add_one)
  qed
  also have "\<dots> = withRetry_from 3 (Some e2) req oper repo opn s2'"
  proof -
    have "(2::nat) < MAX_RETRIES" by (simp add: MAX_RETRIES_def)
    moreover have "(2::nat) + 1 = 3" by simp
    ultimately show ?thesis
      using withRetry_from_retry [OF _ inv2 e2(2), of 2 "Some e1" repo opn]
      by (simp only: s2'_def)
  qed
  also have "\<dots> = (Threw (GitHubApiError repo opn e3), s3)"
    by (rule withRetry_from_throw [OF _ inv3]) (simp_all add: MAX_RETRIES_def)
  finally have run: "withRetry req oper repo opn st = (Threw (GitHubApiError repo opn e3), s3)" .
  moreover have "issued s3 = issued st + 3"
    by (simp add: s3_def i2)
  moreover have "trace s3 = trace (checkRateLimit st) @
      [Failed req e1, Slept (retryDelay 1 e1), Failed req e2, Slept (retryDelay 2 e2),
       Failed req e3]"
    by (simp add: s3_def s2'_def s2_def s1'_def s1_def s0_def sleep_def)
  ultimately show "\<exists>e1 e2 e3 st'.
         oper (issued st) = Inl e1 \<and> oper (issued st + 1) = Inl e2 \<and>
         oper (issued st + 2) = Inl e3 \<and>
         withRetry req oper repo opn st = (Threw (GitHubApiError repo opn e3), st') \<and>
         issued st' = issued st + 3 \<and>
         trace st' = trace (checkRateLimit st) @
           [Failed req e1, Slept (retryDelay 1 e1), Failed req e2, Slept (retryDelay 2 e2),
            Failed req e3]"
    using e1 e2 e3 by blast
next
  fix e
  assume fatal: "oper (issued st) = Inl e \<and> \<not> isRetryableError e"
  define s0 where "s0 = checkRateLimit st"
  have i0: "issued s0 = issued st"
    by (simp add: s0_def issued_checkRateLimit)
  have inv: "invoke req oper s0 =
      (Inl e, s0\<lparr>issued := issued s0 + 1, trace := trace s0 @ [Failed req e]\<rparr>)"
    using fatal i0 by (simp add: invoke_def)
  have "withRetry_from 1 None req oper repo opn s0 =
      (Threw (GitHubApiError repo opn e),
       s0\<lparr>issued := issued s0 + 1, trace := trace s0 @ [Failed req e]\<rparr>)"
    using fatal by (intro withRetry_from_throw [OF _ inv]) (simp_all add: MAX_RETRIES_def)
  then show "\<exists>st'. withRetry req oper repo opn st = (Threw (GitHubApiError repo opn e), st') \<and>
         issued st' = issued st + 1 \<and>
         trace st' = trace (checkRateLimit st) @ [Failed req e]"
    by (simp add: withRetry_def s0_def i0 [unfolded s0_def])
qed

lemma retryable_rate_limited: "isRetryableError rate_limited"
  by (simp add: isRetryableError_def rate_limited_def toLowerCase_def toLowerCase_char_def)

lemma retryable_bad_gateway: "isRetryableError bad_gateway"
  by (simp add: isRetryableError_def bad_gateway_def toLowerCase_def toLowerCase_char_def)

lemma fatal_server_error: "\<not> isRetryableError server_error"
  by (simp add: isRetryableError_def server_error_def toLowerCase_def toLowerCase_char_def)

lemma fatal_not_found: "\<not> isRetryableError not_found"
  by (simp add: isRetryableError_def not_found_def toLowerCase_def toLowerCase_char_def)

theorem withRetry_three_attempts_witness:
  "(\<forall>n. \<exists>e. (\<lambda>n. Inl rate_limited :: js_error + string response) n = Inl e \<and> isRetryableError e) \<and>
   fst (withRetry (ReposGet ''alpha'') (\<lambda>n. Inl rate_limited :: js_error + string response)
          ''alpha'' ''fetching default branch'' (new_client 0))
     = Threw (GitHubApiError ''alpha'' ''fetching default branch'' rate_limited) \<and>
   issued (snd (withRetry (ReposGet ''alpha'') (\<lambda>n. Inl rate_limited :: js_error + string response)
          ''alpha'' ''fetching default branch'' (new_client 0))) = 3 \<and>
   trace (snd (withRetry (ReposGet ''alpha'') (\<lambda>n. Inl rate_limited :: js_error + string response)
          ''alpha'' ''fetching default branch'' (new_client 0))) =
     [Failed (ReposGet ''alpha'') rate_limited, Slept 60000,
      Failed (ReposGet ''alpha'') rate_limited, Slept 60000,
      Failed (ReposGet ''alpha'') rate_limited] \<and>
   \<not> isRetryableError server_error \<and>
   fst (withRetry (ReposGet ''alpha'') (\<lambda>n. Inl server_error :: js_error + string response)
          ''alpha'' ''fetching default branch'' (new_client 0))
     = Threw (GitHubApiError ''alpha'' ''fetching default branch'' server_error) \<and>
   trace (snd (withRetry (ReposGet ''alpha'') (\<lambda>n. Inl server_error :: js_error + string response)
          ''alpha'' ''fetching default branch'' (new_client 0))) =
     [Failed (ReposGet ''alpha'') server_error]"
  using withRetry_three_attempts [of "\<lambda>n. Inl rate_limited :: js_error + string response"
      "new_client 0" "ReposGet ''alpha''" "''alpha''" "''fetching default branch''"]
    withRetry_three_attempts [of "\<lambda>n. Inl server_error :: js_error + string response"
      "new_client 0" "ReposGet ''alpha''" "''alpha''" "''fetching default branch''"]
    retryable_rate_limited fatal_server_error
  by (auto simp: new_client_def checkRateLimit_def retryDelay_def INITIAL_RETRY_DELAY_MS_def
      rate_limited_def)



subsection \<open>Which failure a run ends on\<close>

lemma emitsD:
  assumes "emits m Q" and "m st = (res, st')"
  obtains evs where "trace st' = trace st @ evs" and "Q res evs"
  using assms unfolding emits_def by (metis fst_conv snd_conv)

lemma emitsI:
  assumes "\<And>st res st'. m st = (res, st') \<Longrightarrow> \<exists>evs. trace st' = trace st @ evs \<and> Q res evs"
  shows "emits m Q"
  unfolding emits_def using assms by (metis prod.collapse)

lemma blames_nil [simp]: "blames G repo res []"
  by (simp add: blames_def ends_with_failure_def)

lemma blames_return: "emits (return v) (blames G repo)"
  by (rule emitsI) (simp add: return_def)

lemma blames_throw: "emits (throw e) (blames G repo)"
  by (rule emitsI) (simp add: throw_def)

lemma blames_append:
  assumes "blames G repo (Returned v) evs1" and "blames G repo res evs2"
  shows "blames G repo res (evs1 @ evs2)"
  using assms by (cases "evs2 = []") (auto simp: blames_def ends_with_failure_def)

lemma blames_other:
  assumes "blames G repo (res :: 'a outcome) evs" and "\<forall>v. res \<noteq> Returned v"
    and "\<forall>e. (res = Threw e) = (res' = Threw e)"
  shows "blames G repo (res' :: 'b outcome) evs"
  using assms by (auto simp: blames_def)

lemma blames_andThen:
  assumes m: "emits m (blames G repo)" and f: "\<And>v. emits (f v) (blames G repo)"
  shows "emits (andThen m f) (blames G repo)"
proof (rule emitsI)
  fix st res st'
  assume run: "andThen m f st = (res, st')"
  obtain r1 s1 where m1: "m st = (r1, s1)" by (cases "m st")
  from emitsD [OF m m1] obtain evs1
    where t1: "trace s1 = trace st @ evs1" and b1: "blames G repo r1 evs1" by blast
  show "\<exists>evs. trace st' = trace st @ evs \<and> blames G repo res evs"
  proof (cases r1)
    case (Returned v)
    with run m1 have f1: "f v s1 = (res, st')" by (simp add: andThen_def)
    from emitsD [OF f f1] obtain evs2
      where t2: "trace st' = trace s1 @ evs2" and b2: "blames G repo res evs2" by blast
    from b1 b2 Returned have "blames G repo res (evs1 @ evs2)"
      by (simp add: blames_append)
    with t1 t2 show ?thesis by auto
  next
    case (Threw e)
    with run m1 have "res = Threw e" "st' = s1" by (simp_all add: andThen_def)
    with t1 b1 Threw show ?thesis by (auto simp: blames_def)
  next
    case Unfinished
    with run m1 have "res = Unfinished" "st' = s1" by (simp_all add: andThen_def)
    with t1 b1 Unfinished show ?thesis by (auto simp: blames_def)
  qed
qed

text \<open>A handler that has no effect of its own and rethrows the errors of interest.\<close>

lemma blames_tryCatch:
  assumes m: "emits m (blames G repo)"
    and pure: "\<And>err st. snd (h err st) = st"
    and rethrow: "\<And>req e opn st. G req e \<Longrightarrow>
        fst (h (GitHubApiError repo opn e) st) = Threw (GitHubApiError repo opn e)"
  shows "emits (tryCatch m h) (blames G repo)"
proof (rule emitsI)
  fix st res st'
  assume run: "tryCatch m h st = (res, st')"
  obtain r1 s1 where m1: "m st = (r1, s1)" by (cases "m st")
  from emitsD [OF m m1] obtain evs1
    where t1: "trace s1 = trace st @ evs1" and b1: "blames G repo r1 evs1" by blast
  show "\<exists>evs. trace st' = trace st @ evs \<and> blames G repo res evs"
  proof (cases r1)
    case (Returned v)
    with run m1 have "res = Returned v" "st' = s1" by (simp_all add: tryCatch_def)
    with t1 b1 Returned show ?thesis by auto
  next
    case (Threw err)
    with run m1 have h1: "h err s1 = (res, st')" by (simp add: tryCatch_def)
    with pure [of err s1] have s: "st' = s1" by simp
    have "blames G repo res evs1"
      unfolding blames_def
    proof (intro allI impI)
      fix req e
      assume "ends_with_failure evs1 req e" and g: "G req e"
      with b1 Threw obtain opn where "err = GitHubApiError repo opn e"
        by (auto simp: blames_def)
      with rethrow [OF g, of opn s1] h1
      show "\<exists>opn. res = Threw (GitHubApiError repo opn e)" by auto
    qed
    with t1 s show ?thesis by auto
  next
    case Unfinished
    with run m1 have "res = Unfinished" "st' = s1" by (simp_all add: tryCatch_def)
    with t1 b1 Unfinished show ?thesis by (auto simp: blames_def)
  qed
qed

lemma trace_updateRateLimit [simp]: "trace (updateRateLimit h st) = trace st"
  by (simp add: updateRateLimit_def Let_def split: option.splits)

lemma trace_checkRateLimit:
  "\<exists>evs. trace (checkRateLimit st) = trace st @ evs \<and> (\<forall>ev \<in> set evs. \<exists>ms. ev = Slept ms)"
  by (simp add: checkRateLimit_def sleep_def Let_def)

lemma blames_withRetry_from:
  "emits (withRetry_from attempt le req oper repo opn) (blames G repo)"
proof (rule emitsI)
  fix st res st'
  assume "withRetry_from attempt le req oper repo opn st = (res, st')"
  then show "\<exists>evs. trace st' = trace st @ evs \<and> blames G repo res evs"
  proof (induction attempt le req oper repo opn st arbitrary: res st'
      rule: withRetry_from.induct)
    case (1 attempt lastError req oper repo opn st)
    show ?case
    proof (cases "attempt \<le> MAX_RETRIES")
      case False
      with "1.prems" have "st' = st"
        by (subst (asm) withRetry_from.simps) (auto split: option.splits)
      then show ?thesis by auto
    next
      case True
      show ?thesis
      proof (cases "oper (issued st)")
        case (Inr r)
        define s1 where "s1 = st\<lparr>issued := issued st + 1, trace := trace st @ [Succeeded req]\<rparr>"
        have inv: "invoke req oper st = (Inr r, s1)"
          using Inr by (simp add: invoke_def s1_def)
        with True "1.prems" have "res = Returned r"
          and "trace st' = trace st @ [Succeeded req]"
          by (auto simp: withRetry_from_return s1_def)
        then show ?thesis
          by (auto simp: blames_def ends_with_failure_def)
      next
        case (Inl e)
        define s1 where "s1 = st\<lparr>issued := issued st + 1, trace := trace st @ [Failed req e]\<rparr>"
        have inv: "invoke req oper st = (Inl e, s1)"
          using Inl by (simp add: invoke_def s1_def)
        show ?thesis
        proof (cases "\<not> isRetryableError e \<or> attempt = MAX_RETRIES")
          case True
          with \<open>attempt \<le> MAX_RETRIES\<close> inv "1.prems"
          have "res = Threw (GitHubApiError repo opn e)" "st' = s1"
            by (simp_all add: withRetry_from_throw)
          then show ?thesis
            by (auto simp: blames_def ends_with_failure_def s1_def)
        next
          case False
          with \<open>attempt \<le> MAX_RETRIES\<close> have lt: "attempt < MAX_RETRIES" and re: "isRetryableError e"
            by auto
          from "1.prems" withRetry_from_retry [OF lt inv re, of lastError repo opn]
          have next_run: "withRetry_from (attempt + 1) (Some e) req oper repo opn
              (sleep (retryDelay attempt e) s1) = (res, st')" by simp
          from "1.IH" [OF True inv [symmetric] refl _ next_run] False
          obtain evs where "trace st' = trace (sleep (retryDelay attempt e) s1) @ evs"
            and b: "blames G repo res evs" by auto
          then have "trace st' = trace st @ ([Failed req e, Slept (retryDelay attempt e)] @ evs)"
            by (simp add: sleep_def s1_def)
          moreover have "blames G repo res ([Failed req e, Slept (retryDelay attempt e)] @ evs)"
            using b by (cases "evs = []") (auto simp: blames_def ends_with_failure_def)
          ultimately show ?thesis by blast
        qed
      qed
    qed
  qed
qed

lemma blames_withRetry: "emits (withRetry req oper repo opn) (blames G repo)"
proof (rule emitsI)
  fix st res st'
  assume run: "withRetry req oper repo opn st = (res, st')"
  then have "withRetry_from 1 None req oper repo opn (checkRateLimit st) = (res, st')"
    by (simp add: withRetry_def)
  from emitsD [OF blames_withRetry_from this] obtain evs
    where t: "trace st' = trace (checkRateLimit st) @ evs" and b: "blames G repo res evs"
    by blast
  obtain evs0 where t0: "trace (checkRateLimit st) = trace st @ evs0"
    and sl: "\<forall>ev \<in> set evs0. \<exists>ms. ev = Slept ms"
    using trace_checkRateLimit by blast
  have "blames G repo res (evs0 @ evs)"
  proof (cases "evs = []")
    case True
    have "\<not> ends_with_failure evs0 req e" for req e
      using sl by (auto simp: ends_with_failure_def dest!: last_in_set)
    with True show ?thesis by (simp add: blames_def)
  next
    case False
    with b show ?thesis by (simp add: blames_def ends_with_failure_def)
  qed
  with t t0 show "\<exists>evs. trace st' = trace st @ evs \<and> blames G repo res evs"
    by auto
qed

lemma blames_silent:
  assumes "\<And>st. trace (snd (m st)) = trace st"
  shows "emits m (blames G repo)"
  by (rule emitsI) (use assms in \<open>auto dest!: arg_cong [where f = snd]\<close>)

lemma blames_fetchDefaultBranch: "emits (fetchDefaultBranch srv repo) (blames G repo)"
  unfolding fetchDefaultBranch_def
  by (intro blames_andThen blames_withRetry blames_silent)
     (simp add: rememberBranch_def Let_def)

lemma blames_getDefaultBranch: "emits (getDefaultBranch srv repo) (blames G repo)"
proof (rule emitsI)
  fix st res st'
  assume run: "getDefaultBranch srv repo st = (res, st')"
  show "\<exists>evs. trace st' = trace st @ evs \<and> blames G repo res evs"
  proof (cases "\<exists>cached. repoBranchCache st repo = Some cached \<and> cached \<noteq> []")
    case True
    with run have "st' = st" by (auto simp: getDefaultBranch_def)
    then show ?thesis by auto
  next
    case False
    with run have "fetchDefaultBranch srv repo st = (res, st')"
      by (auto simp: getDefaultBranch_def split: option.splits if_splits)
    from emitsD [OF blames_fetchDefaultBranch this] show ?thesis by blast
  qed
qed

lemma blames_targetBranch: "emits (targetBranch srv repo branch) (blames G repo)"
  by (cases branch) (simp_all add: targetBranch_def blames_return blames_getDefaultBranch)

lemma blames_firstCommitParent:
  "emits (firstCommitParent cfg srv repo branch) (blames G repo)"
  unfolding firstCommitParent_def Let_def
  by (intro blames_andThen blames_withRetry allI)
     (auto simp: blames_return intro!: blames_andThen blames_withRetry split: list.split)

lemma blames_lineStats: "emits (lineStats cfg srv repo branch) (blames G repo)"
  unfolding lineStats_def Let_def
  by (intro blames_andThen blames_withRetry allI)
     (auto simp: blames_return blames_firstCommitParent
           intro!: blames_andThen blames_withRetry split: list.split base.split)

lemma blames_getLinesOfCode:
  "emits (getLinesOfCode cfg srv repo branch) (blames G repo)"
  unfolding getLinesOfCode_def
  by (auto simp: blames_return return_def throw_def
        intro!: blames_andThen blames_targetBranch blames_tryCatch blames_lineStats
        split: option.split)

subsection \<open>Which requests a run sends\<close>

lemma only_silent:
  assumes "\<And>st. trace (snd (m st)) = trace st"
  shows "emits m (only P)"
  by (rule emitsI) (use assms in \<open>auto simp: only_def dest!: arg_cong [where f = snd]\<close>)

lemma only_return: "emits (return v) (only P)"
  by (rule only_silent) (simp add: return_def)

lemma only_throw: "emits (throw e) (only P)"
  by (rule only_silent) (simp add: throw_def)

lemma only_andThen:
  assumes m: "emits m (only P)" and f: "\<And>v. emits (f v) (only P)"
  shows "emits (andThen m f) (only P)"
proof (rule emitsI)
  fix st res st'
  assume run: "andThen m f st = (res, st')"
  obtain r1 s1 where m1: "m st = (r1, s1)" by (cases "m st")
  from emitsD [OF m m1] obtain evs1
    where t1: "trace s1 = trace st @ evs1" and b1: "list_all P evs1"
    by (auto simp: only_def)
  show "\<exists>evs. trace st' = trace st @ evs \<and> only P res evs"
  proof (cases r1)
    case (Returned v)
    with run m1 have f1: "f v s1 = (res, st')" by (simp add: andThen_def)
    from emitsD [OF f f1] obtain evs2
      where "trace st' = trace s1 @ evs2" and "list_all P evs2"
      by (auto simp: only_def)
    with t1 b1 have "trace st' = trace st @ (evs1 @ evs2)" "list_all P (evs1 @ evs2)"
      by simp_all
    then show ?thesis unfolding only_def by blast
  next
    case (Threw e)
    with run m1 have "st' = s1" by (simp add: andThen_def)
    with t1 b1 show ?thesis by (auto simp: only_def)
  next
    case Unfinished
    with run m1 have "st' = s1" by (simp add: andThen_def)
    with t1 b1 show ?thesis by (auto simp: only_def)
  qed
qed

lemma only_tryCatch:
  assumes m: "emits m (only P)" and h: "\<And>err. emits (h err) (only P)"
  shows "emits (tryCatch m h) (only P)"
proof (rule emitsI)
  fix st res st'
  assume run: "tryCatch m h st = (res, st')"
  obtain r1 s1 where m1: "m st = (r1, s1)" by (cases "m st")
  from emitsD [OF m m1] obtain evs1
    where t1: "trace s1 = trace st @ evs1" and b1: "list_all P evs1"
    by (auto simp: only_def)
  show "\<exists>evs. trace st' = trace st @ evs \<and> only P res evs"
  proof (cases r1)
    case (Threw err)
    with run m1 have h1: "h err s1 = (res, st')" by (simp add: tryCatch_def)
    from emitsD [OF h h1] obtain evs2
      where "trace st' = trace s1 @ evs2" and "list_all P evs2"
      by (auto simp: only_def)
    with t1 b1 have "trace st' = trace st @ (evs1 @ evs2)" "list_all P (evs1 @ evs2)"
      by simp_all
    then show ?thesis unfolding only_def by blast
  next
    case (Returned v)
    with run m1 have "st' = s1" by (simp add: tryCatch_def)
    with t1 b1 show ?thesis by (auto simp: only_def)
  next
    case Unfinished
    with run m1 have "st' = s1" by (simp add: tryCatch_def)
    with t1 b1 show ?thesis by (auto simp: only_def)
  qed
qed

lemma only_withRetry_from:
  assumes ok: "P (Succeeded req)" and bad: "\<And>e. P (Failed req e)" and sl: "\<And>ms. P (Slept ms)"
  shows "emits (withRetry_from attempt le req oper repo opn) (only P)"
proof (rule emitsI)
  fix st res st'
  assume "withRetry_from attempt le req oper repo opn st = (res, st')"
  moreover have "P (Succeeded req) \<and> (\<forall>e. P (Failed req e)) \<and> (\<forall>ms. P (Slept ms))"
    using assms by blast
  ultimately show "\<exists>evs. trace st' = trace st @ evs \<and> only P res evs"
  proof (induction attempt le req oper repo opn st arbitrary: res st'
      rule: withRetry_from.induct)
    case (1 attempt lastError req oper repo opn st)
    note P = "1.prems"(2)
    show ?case
    proof (cases "attempt \<le> MAX_RETRIES")
      case False
      with "1.prems"(1) have "st' = st"
        by (subst (asm) withRetry_from.simps) (auto split: option.splits)
      then show ?thesis by (auto simp: only_def)
    next
      case True
      show ?thesis
      proof (cases "oper (issued st)")
        case (Inr r)
        define s1 where "s1 = st\<lparr>issued := issued st + 1, trace := trace st @ [Succeeded req]\<rparr>"
        have inv: "invoke req oper st = (Inr r, s1)"
          using Inr by (simp add: invoke_def s1_def)
        with True "1.prems"(1) have "trace st' = trace st @ [Succeeded req]"
          by (auto simp: withRetry_from_return s1_def)
        with P show ?thesis by (auto simp: only_def)
      next
        case (Inl e)
        define s1 where "s1 = st\<lparr>issued := issued st + 1, trace := trace st @ [Failed req e]\<rparr>"
        have inv: "invoke req oper st = (Inl e, s1)"
          using Inl by (simp add: invoke_def s1_def)
        show ?thesis
        proof (cases "\<not> isRetryableError e \<or> attempt = MAX_RETRIES")
          case True
          with \<open>attempt \<le> MAX_RETRIES\<close> inv "1.prems"(1) have "st' = s1"
            by (simp_all add: withRetry_from_throw)
          with P show ?thesis by (auto simp: only_def s1_def)
        next
          case False
          with \<open>attempt \<le> MAX_RETRIES\<close> have lt: "attempt < MAX_RETRIES" and re: "isRetryableError e"
            by auto
          from "1.prems"(1) withRetry_from_retry [OF lt inv re, of lastError repo opn]
          have next_run: "withRetry_from (attempt + 1) (Some e) req oper repo opn
              (sleep (retryDelay attempt e) s1) = (res, st')" by simp
          from "1.IH" [OF True inv [symmetric] refl _ next_run P] False
          obtain evs where "trace st' = trace (sleep (retryDelay attempt e) s1) @ evs"
            and b: "list_all P evs" by (auto simp: only_def)
          then have "trace st' = trace st @ ([Failed req e, Slept (retryDelay attempt e)] @ evs)"
            by (simp add: sleep_def s1_def)
          moreover have "list_all P ([Failed req e, Slept (retryDelay attempt e)] @ evs)"
            using b P by simp
          ultimately show ?thesis unfolding only_def by blast
        qed
      qed
    qed
  qed
qed

lemma only_withRetry:
  assumes ok: "P (Succeeded req)" and bad: "\<And>e. P (Failed req e)" and sl: "\<And>ms. P (Slept ms)"
  shows "emits (withRetry req oper repo opn) (only P)"
proof (rule emitsI)
  fix st res st'
  assume run: "withRetry req oper repo opn st = (res, st')"
  then have "withRetry_from 1 None req oper repo opn (checkRateLimit st) = (res, st')"
    by (simp add: withRetry_def)
  from emitsD [OF only_withRetry_from [of P, OF assms] this] obtain evs
    where t: "trace st' = trace (checkRateLimit st) @ evs" and b: "list_all P evs"
    by (auto simp: only_def)
  obtain evs0 where t0: "trace (checkRateLimit st) = trace st @ evs0"
    and s0: "\<forall>ev \<in> set evs0. \<exists>ms. ev = Slept ms"
    using trace_checkRateLimit by blast
  from s0 sl have "list_all P evs0"
    by (auto simp: list_all_iff)
  with t t0 b have "trace st' = trace st @ (evs0 @ evs)" "list_all P (evs0 @ evs)"
    by simp_all
  then show "\<exists>evs. trace st' = trace st @ evs \<and> only P res evs"
    unfolding only_def by blast
qed

lemma only_paged:
  assumes "\<And>page acc. emits (body page acc) (only P)"
  shows "emits (paged fuel body page acc) (only P)"
proof (induction fuel arbitrary: page acc)
  case 0
  show ?case by (rule only_silent) simp
next
  case (Suc fuel)
  have "emits (andThen (body page acc)
       (\<lambda>step. case step of
                 Result v \<Rightarrow> return v
               | NextPage acc' \<Rightarrow> paged fuel body (page + 1) acc')) (only P)"
    by (intro only_andThen assms) (simp add: only_return Suc.IH split: flow.split)
  then show ?case
    unfolding emits_def by (simp only: paged.simps simp_thms)
qed


lemma withRetry_first:
  "withRetry req oper repo opn st =
     (case oper (issued (checkRateLimit st)) of
        Inr r \<Rightarrow>
          (Returned r,
           updateRateLimit (headers r)
             ((checkRateLimit st)\<lparr>issued := issued (checkRateLimit st) + 1,
                trace := trace (checkRateLimit st) @ [Succeeded req]\<rparr>))
      | Inl e \<Rightarrow>
          if \<not> isRetryableError e
          then (Threw (GitHubApiError repo opn e),
                (checkRateLimit st)\<lparr>issued := issued (checkRateLimit st) + 1,
                   trace := trace (checkRateLimit st) @ [Failed req e]\<rparr>)
          else withRetry_from 2 (Some e) req oper repo opn
                 (sleep (retryDelay 1 e)
                    ((checkRateLimit st)\<lparr>issued := issued (checkRateLimit st) + 1,
                       trace := trace (checkRateLimit st) @ [Failed req e]\<rparr>)))"
  unfolding withRetry_def
  by (subst withRetry_from.simps)
     (simp add: MAX_RETRIES_def invoke_def numeral_2_eq_2 split: sum.split)

lemma safe_pure:
  assumes "safe m d st = (res, st')" and "m st = (r1, s1)"
  shows "st' = s1"
  using assms
  by (cases r1) (auto simp: safe_def tryCatch_def return_def throw_def split: if_splits)

subsection \<open>Following a run step by step\<close>

lemma emits_return: "Q (Returned v) [] \<Longrightarrow> emits (return v) Q"
  by (simp add: emits_def return_def)

lemma emits_throw: "Q (Threw e) [] \<Longrightarrow> emits (throw e) Q"
  by (simp add: emits_def throw_def)

lemma emits_andThen:
  assumes "emits m (\<lambda>res evs1. case res of
              Returned v \<Rightarrow> emits (f v) (\<lambda>res2 evs2. Q res2 (evs1 @ evs2))
            | Threw e \<Rightarrow> Q (Threw e) evs1
            | Unfinished \<Rightarrow> Q Unfinished evs1)"
  shows "emits (andThen m f) Q"
proof (rule emitsI)
  fix st res st'
  assume run: "andThen m f st = (res, st')"
  obtain r1 s1 where m1: "m st = (r1, s1)" by (cases "m st")
  from emitsD [OF assms m1] obtain evs1 where t1: "trace s1 = trace st @ evs1"
    and q1: "case r1 of
              Returned v \<Rightarrow> emits (f v) (\<lambda>res2 evs2. Q res2 (evs1 @ evs2))
            | Threw e \<Rightarrow> Q (Threw e) evs1
            | Unfinished \<Rightarrow> Q Unfinished evs1"
    by blast
  show "\<exists>evs. trace st' = trace st @ evs \<and> Q res evs"
  proof (cases r1)
    case (Returned v)
    with run m1 have f1: "f v s1 = (res, st')" by (simp add: andThen_def)
    from q1 Returned have "emits (f v) (\<lambda>res2 evs2. Q res2 (evs1 @ evs2))" by simp
    from emitsD [OF this f1] obtain evs2
      where "trace st' = trace s1 @ evs2" and "Q res (evs1 @ evs2)" by blast
    with t1 show ?thesis by auto
  next
    case (Threw e)
    with run m1 q1 t1 show ?thesis by (auto simp: andThen_def)
  next
    case Unfinished
    with run m1 q1 t1 show ?thesis by (auto simp: andThen_def)
  qed
qed

lemma emits_tryCatch:
  assumes "emits m (\<lambda>res evs1. case res of
              Returned v \<Rightarrow> Q (Returned v) evs1
            | Threw e \<Rightarrow> emits (h e) (\<lambda>res2 evs2. Q res2 (evs1 @ evs2))
            | Unfinished \<Rightarrow> Q Unfinished evs1)"
  shows "emits (tryCatch m h) Q"
proof (rule emitsI)
  fix st res st'
  assume run: "tryCatch m h st = (res, st')"
  obtain r1 s1 where m1: "m st = (r1, s1)" by (cases "m st")
  from emitsD [OF assms m1] obtain evs1 where t1: "trace s1 = trace st @ evs1"
    and q1: "case r1 of
              Returned v \<Rightarrow> Q (Returned v) evs1
            | Threw e \<Rightarrow> emits (h e) (\<lambda>res2 evs2. Q res2 (evs1 @ evs2))
            | Unfinished \<Rightarrow> Q Unfinished evs1"
    by blast
  show "\<exists>evs. trace st' = trace st @ evs \<and> Q res evs"
  proof (cases r1)
    case (Threw e)
    with run m1 have h1: "h e s1 = (res, st')" by (simp add: tryCatch_def)
    from q1 Threw have "emits (h e) (\<lambda>res2 evs2. Q res2 (evs1 @ evs2))" by simp
    from emitsD [OF this h1] obtain evs2
      where "trace st' = trace s1 @ evs2" and "Q res (evs1 @ evs2)" by blast
    with t1 show ?thesis by auto
  next
    case (Returned v)
    with run m1 q1 t1 show ?thesis by (auto simp: tryCatch_def)
  next
    case Unfinished
    with run m1 q1 t1 show ?thesis by (auto simp: tryCatch_def)
  qed
qed

lemma emits_safe:
  assumes "emits m (\<lambda>res evs. case res of
              Returned v \<Rightarrow> Q (Returned v) evs
            | Threw e \<Rightarrow> Q (if isEmptyRepoError e then Returned d else Threw e) evs
            | Unfinished \<Rightarrow> Q Unfinished evs)"
  shows "emits (safe m d) Q"
  unfolding safe_def
  by (rule emits_tryCatch, rule emitsI)
     (use assms in \<open>auto elim!: emitsD intro!: emits_return emits_throw split: outcome.splits\<close>)

lemma emits_paged_Suc:
  assumes "emits (body page acc) (\<lambda>res evs1. case res of
              Returned (Result v) \<Rightarrow> Q (Returned v) evs1
            | Returned (NextPage acc') \<Rightarrow>
                emits (paged fuel body (page + 1) acc') (\<lambda>res2 evs2. Q res2 (evs1 @ evs2))
            | Threw e \<Rightarrow> Q (Threw e) evs1
            | Unfinished \<Rightarrow> Q Unfinished evs1)"
  shows "emits (paged (Suc fuel) body page acc) Q"
proof -
  have "emits (andThen (body page acc)
       (\<lambda>step. case step of
                 Result v \<Rightarrow> return v
               | NextPage acc' \<Rightarrow> paged fuel body (page + 1) acc')) Q"
    by (rule emits_andThen, rule emitsI)
       (use assms in \<open>auto elim!: emitsD intro!: emits_return split: outcome.splits flow.splits\<close>)
  then show ?thesis
    unfolding emits_def by (simp only: paged.simps simp_thms)
qed

lemma requests_append [simp]: "requests (xs @ ys) = requests xs @ requests ys"
  by (induction xs rule: requests.induct) simp_all

lemma requests_checkRateLimit:
  "\<exists>evs. trace (checkRateLimit st) = trace st @ evs \<and> requests evs = []"
  by (simp add: checkRateLimit_def sleep_def Let_def)

text \<open>A request that is answered at once.\<close>

lemma emits_withRetry_fulfilled:
  assumes "\<And>n. oper n = Inr resp"
    and "\<And>evs. requests evs = [req] \<Longrightarrow> Q (Returned resp) evs"
  shows "emits (withRetry req oper repo opn) Q"
proof (rule emitsI)
  fix st res st'
  assume run: "withRetry req oper repo opn st = (res, st')"
  obtain evs0 where t0: "trace (checkRateLimit st) = trace st @ evs0" and r0: "requests evs0 = []"
    using requests_checkRateLimit by blast
  from run assms(1) have "res = Returned resp"
    and "trace st' = trace (checkRateLimit st) @ [Succeeded req]"
    by (auto simp: withRetry_first)
  with t0 r0 assms(2) [of "evs0 @ [Succeeded req]"]
  show "\<exists>evs. trace st' = trace st @ evs \<and> Q res evs" by auto
qed

lemma data_answer [simp]: "data (answer v) = v"
  by (simp add: answer_def)

lemma emits_repos_get:
  assumes "repos_get srv = hosted_repos_get r" and "repo = repo_name r"
    and "\<And>evs. requests evs = [ReposGet repo] \<Longrightarrow> Q (Returned (answer (default_branch r))) evs"
  shows "emits (withRetry (ReposGet repo) (\<lambda>n. repos_get srv n (ReposGet repo)) repo' opn) Q"
  by (rule emits_withRetry_fulfilled [where resp = "answer (default_branch r)"])
     (use assms in \<open>simp_all add: fulfilled_def\<close>)

lemma emits_listCommits:
  assumes "listCommits srv = hosted_listCommits r" and "repo = repo_name r"
    and "history r \<noteq> []"
    and "\<And>evs. requests evs = [ListCommits repo b since until pp pg] \<Longrightarrow>
           Q (Returned (answer (page_of pp (case pg of Some p \<Rightarrow> p | None \<Rightarrow> 1)
                                  (filter (in_window since until) (history r))))) evs"
  shows "emits (withRetry (ListCommits repo b since until pp pg)
                  (\<lambda>n. listCommits srv n (ListCommits repo b since until pp pg)) repo' opn) Q"
  by (rule emits_withRetry_fulfilled
        [where resp = "answer (page_of pp (case pg of Some p \<Rightarrow> p | None \<Rightarrow> 1)
                                  (filter (in_window since until) (history r)))"])
     (use assms in \<open>simp_all add: fulfilled_def\<close>)

lemma emits_getCommit:
  assumes "getCommit srv = hosted_getCommit r" and "repo = repo_name r"
    and "find (\<lambda>c. sha c = ref) (history r) = Some c"
    and "\<And>evs. requests evs = [GetCommit repo ref] \<Longrightarrow> Q (Returned (answer c)) evs"
  shows "emits (withRetry (GetCommit repo ref) (\<lambda>n. getCommit srv n (GetCommit repo ref))
                  repo' opn) Q"
  by (rule emits_withRetry_fulfilled [where resp = "answer c"])
     (use assms in \<open>simp_all add: fulfilled_def\<close>)

lemma emits_compareCommits:
  assumes "compareCommits srv = hosted_compareCommits r" and "repo = repo_name r"
    and "\<And>evs. requests evs = [CompareCommits repo b h] \<Longrightarrow>
           Q (Returned (answer (diff r b h))) evs"
  shows "emits (withRetry (CompareCommits repo b h)
                  (\<lambda>n. compareCommits srv n (CompareCommits repo b h)) repo' opn) Q"
  by (rule emits_withRetry_fulfilled [where resp = "answer (diff r b h)"])
     (use assms in \<open>simp_all add: fulfilled_def\<close>)

lemma emits_pulls_list:
  assumes "pulls_list srv = hosted_pulls_list r" and "repo = repo_name r"
    and "\<And>evs. requests evs = [PullsList repo b pp pg] \<Longrightarrow>
           Q (Returned (answer (page_of pp pg (pull_requests r)))) evs"
  shows "emits (withRetry (PullsList repo b pp pg)
                  (\<lambda>n. pulls_list srv n (PullsList repo b pp pg)) repo' opn) Q"
  by (rule emits_withRetry_fulfilled [where resp = "answer (page_of pp pg (pull_requests r))"])
     (use assms in \<open>simp_all add: fulfilled_def\<close>)

lemma emits_listReleases:
  assumes "listReleases srv = hosted_listReleases r" and "repo = repo_name r"
    and "\<And>evs. requests evs = [ListReleases repo pp pg] \<Longrightarrow>
           Q (Returned (answer (page_of pp pg (release_list r)))) evs"
  shows "emits (withRetry (ListReleases repo pp pg)
                  (\<lambda>n. listReleases srv n (ListReleases repo pp pg)) repo' opn) Q"
  by (rule emits_withRetry_fulfilled [where resp = "answer (page_of pp pg (release_list r))"])
     (use assms in \<open>simp_all add: fulfilled_def\<close>)

lemma emits_action_cong: "m = m' \<Longrightarrow> emits m Q = emits m' Q"
  by simp

lemma andThen_block: "andThen m f = andThen m f"
  by (rule refl)

lemma tryCatch_block: "tryCatch m h = tryCatch m h"
  by (rule refl)

lemma safe_block: "safe m d = safe m d"
  by (rule refl)

lemma paged_block: "paged fuel body page acc = paged fuel body page acc"
  by (rule refl)

lemma withRetry_block: "withRetry req oper repo opn = withRetry req oper repo opn"
  by (rule refl)

lemmas step_congs =
  emits_action_cong andThen_block tryCatch_block safe_block paged_block withRetry_block

lemmas collector_defs =
  getCommitCount_def getCommitCount_page_def getLinesOfCode_def lineStats_def
  firstCommitParent_def getPullRequestCount_def getPullRequestCount_page_def
  getContributors_def getContributors_page_def getReleaseCount_def getReleaseCount_page_def
  targetBranch_def commitsInRange_def

lemma emits_weaken:
  assumes "emits m Q" and "\<And>res evs. Q res evs \<Longrightarrow> Q' res evs"
  shows "emits m Q'"
  using assms unfolding emits_def by blast

lemma emits_rememberBranch:
  "Q (Returned (data response)) [] \<Longrightarrow> emits (rememberBranch repo response) Q"
  by (simp add: emits_def rememberBranch_def Let_def)

lemma fresh_cache: "repoBranchCache (new_client now) repo = None"
  by (simp add: new_client_def)

subsection \<open>Failures are thrown wrapped\<close>

lemma wraps_nil [simp]: "wraps repo res [] = (\<forall>x. res \<noteq> Threw x)"
  by (auto simp: wraps_def)

lemma wrapsI:
  assumes "\<And>pre req e post. evs = pre @ Failed req e # post \<Longrightarrow> \<not> isRetryableError e \<Longrightarrow>
      post = [] \<and> (\<exists>opn \<in> set (operations req). res = Threw (GitHubApiError repo opn e))"
    and "\<And>x. res = Threw x \<Longrightarrow>
      \<exists>pre req e. evs = pre @ [Failed req e] \<and> \<not> listsReleases req \<and>
        (\<exists>opn \<in> set (operations req). x = GitHubApiError repo opn e)"
  shows "wraps repo res evs"
  using assms unfolding wraps_def by blast

lemma append_eq_mid:
  assumes "xs @ ys = pre @ x # post"
  shows "(\<exists>post1. xs = pre @ x # post1 \<and> post = post1 @ ys) \<or>
         (\<exists>pre2. pre = xs @ pre2 \<and> ys = pre2 @ x # post)"
  using assms by (auto simp: append_eq_append_conv2 append_eq_Cons_conv)

lemma wraps_Cons:
  assumes "wraps repo res evs" and "\<And>req e. ev = Failed req e \<Longrightarrow> isRetryableError e"
  shows "wraps repo res (ev # evs)"
proof (rule wrapsI)
  fix pre req e post
  assume eq: "ev # evs = pre @ Failed req e # post" and fatal: "\<not> isRetryableError e"
  show "post = [] \<and> (\<exists>opn \<in> set (operations req). res = Threw (GitHubApiError repo opn e))"
  proof (cases pre)
    case Nil
    with eq have "ev = Failed req e" by simp
    with assms(2) fatal show ?thesis by blast
  next
    case (Cons p pre')
    with eq have "evs = pre' @ Failed req e # post" by simp
    with assms(1) fatal show ?thesis unfolding wraps_def by blast
  qed
next
  fix x
  assume "res = Threw x"
  with assms(1) obtain pre req e where "evs = pre @ [Failed req e]"
    and o: "\<not> listsReleases req \<and>
      (\<exists>opn \<in> set (operations req). x = GitHubApiError repo opn e)"
    unfolding wraps_def by blast
  then have "ev # evs = (ev # pre) @ [Failed req e]" by simp
  with o show "\<exists>pre req e. ev # evs = pre @ [Failed req e] \<and> \<not> listsReleases req \<and>
          (\<exists>opn \<in> set (operations req). x = GitHubApiError repo opn e)"
    by blast
qed

lemma wraps_slept:
  assumes "\<forall>ev \<in> set evs0. \<exists>ms. ev = Slept ms" and "wraps repo res evs"
  shows "wraps repo res (evs0 @ evs)"
  using assms(1)
proof (induction evs0)
  case Nil
  show ?case using assms(2) by simp
next
  case (Cons ev evs0)
  then have "wraps repo res (evs0 @ evs)" by simp
  moreover from Cons.prems have "\<And>req e. ev = Failed req e \<Longrightarrow> isRetryableError e" by auto
  ultimately show ?case by (simp add: wraps_Cons)
qed

lemma wraps_return: "emits (return v) (wraps repo)"
  by (rule emitsI) (simp add: return_def)

lemma wraps_andThen:
  assumes m: "emits m (wraps repo)" and f: "\<And>v. emits (f v) (wraps repo)"
  shows "emits (andThen m f) (wraps repo)"
proof (rule emitsI)
  fix st res st'
  assume run: "andThen m f st = (res, st')"
  obtain r1 s1 where m1: "m st = (r1, s1)" by (cases "m st")
  from emitsD [OF m m1] obtain evs1
    where t1: "trace s1 = trace st @ evs1" and b1: "wraps repo r1 evs1" by blast
  show "\<exists>evs. trace st' = trace st @ evs \<and> wraps repo res evs"
  proof (cases r1)
    case (Returned v)
    with run m1 have f1: "f v s1 = (res, st')" by (simp add: andThen_def)
    from emitsD [OF f f1] obtain evs2
      where t2: "trace st' = trace s1 @ evs2" and b2: "wraps repo res evs2" by blast
    have "wraps repo res (evs1 @ evs2)"
    proof (rule wrapsI)
      fix pre req e post
      assume eq: "evs1 @ evs2 = pre @ Failed req e # post" and fatal: "\<not> isRetryableError e"
      from append_eq_mid [OF eq]
      show "post = [] \<and> (\<exists>opn \<in> set (operations req). res = Threw (GitHubApiError repo opn e))"
      proof
        assume "\<exists>post1. evs1 = pre @ Failed req e # post1 \<and> post = post1 @ evs2"
        with b1 fatal Returned show ?thesis unfolding wraps_def by blast
      next
        assume "\<exists>pre2. pre = evs1 @ pre2 \<and> evs2 = pre2 @ Failed req e # post"
        with b2 fatal show ?thesis unfolding wraps_def by blast
      qed
    next
      fix x
      assume "res = Threw x"
      with b2 obtain pre req e where "evs2 = pre @ [Failed req e]"
        and o: "\<not> listsReleases req \<and>
          (\<exists>opn \<in> set (operations req). x = GitHubApiError repo opn e)"
        unfolding wraps_def by blast
      then have "evs1 @ evs2 = (evs1 @ pre) @ [Failed req e]" by simp
      with o show "\<exists>pre req e. evs1 @ evs2 = pre @ [Failed req e] \<and> \<not> listsReleases req \<and>
          (\<exists>opn \<in> set (operations req). x = GitHubApiError repo opn e)"
        by blast
    qed
    with t1 t2 show ?thesis by auto
  next
    case (Threw e)
    with run m1 have "res = Threw e" "st' = s1" by (simp_all add: andThen_def)
    with t1 b1 Threw show ?thesis by (auto simp: wraps_def)
  next
    case Unfinished
    with run m1 have "res = Unfinished" "st' = s1" by (simp_all add: andThen_def)
    with t1 b1 Unfinished show ?thesis by (auto simp: wraps_def)
  qed
qed

text \<open>A handler that has no effect of its own and rethrows every wrapped failure.\<close>

lemma wraps_tryCatch:
  assumes m: "emits m (wraps repo)"
    and rethrow: "\<And>opn e st. h (GitHubApiError repo opn e) st = (Threw (GitHubApiError repo opn e), st)"
  shows "emits (tryCatch m h) (wraps repo)"
proof (rule emitsI)
  fix st res st'
  assume run: "tryCatch m h st = (res, st')"
  obtain r1 s1 where m1: "m st = (r1, s1)" by (cases "m st")
  from emitsD [OF m m1] obtain evs1
    where t1: "trace s1 = trace st @ evs1" and b1: "wraps repo r1 evs1" by blast
  have "res = r1 \<and> st' = s1"
  proof (cases r1)
    case (Threw err)
    with b1 obtain opn e where "err = GitHubApiError repo opn e"
      unfolding wraps_def by blast
    with run m1 Threw rethrow [of opn e s1] show ?thesis by (simp add: tryCatch_def)
  qed (use run m1 in \<open>simp_all add: tryCatch_def\<close>)
  with t1 b1 show "\<exists>evs. trace st' = trace st @ evs \<and> wraps repo res evs" by auto
qed

lemma wraps_withRetry_from:
  assumes "opn \<in> set (operations req) \<and> \<not> listsReleases req" and "attempt \<le> MAX_RETRIES"
  shows "emits (withRetry_from attempt le req oper repo opn) (wraps repo)"
proof (rule emitsI)
  fix st res st'
  assume "withRetry_from attempt le req oper repo opn st = (res, st')"
  moreover have "(opn \<in> set (operations req) \<and> \<not> listsReleases req) \<and>
      attempt \<le> MAX_RETRIES"
    using assms by simp
  ultimately show "\<exists>evs. trace st' = trace st @ evs \<and> wraps repo res evs"
  proof (induction attempt le req oper repo opn st arbitrary: res st'
      rule: withRetry_from.induct)
    case (1 attempt lastError req oper repo opn st)
    note run = "1.prems"(1) and named = "1.prems"(2) [THEN conjunct1]
      and True = "1.prems"(2) [THEN conjunct2]
    show ?case
    proof (cases "oper (issued st)")
      case (Inr r)
      define s1 where "s1 = st\<lparr>issued := issued st + 1, trace := trace st @ [Succeeded req]\<rparr>"
      have inv: "invoke req oper st = (Inr r, s1)"
        using Inr by (simp add: invoke_def s1_def)
      with True run have "res = Returned r"
        and "trace st' = trace st @ [Succeeded req]"
        by (auto simp: withRetry_from_return s1_def)
      moreover have "wraps repo (Returned r) [Succeeded req]"
        by (auto simp: wraps_def append_eq_Cons_conv Cons_eq_append_conv)
      ultimately show ?thesis by blast
    next
      case (Inl e)
      define s1 where "s1 = st\<lparr>issued := issued st + 1, trace := trace st @ [Failed req e]\<rparr>"
      have inv: "invoke req oper st = (Inl e, s1)"
        using Inl by (simp add: invoke_def s1_def)
      show ?thesis
      proof (cases "\<not> isRetryableError e \<or> attempt = MAX_RETRIES")
        case True
        with \<open>attempt \<le> MAX_RETRIES\<close> inv run
        have "res = Threw (GitHubApiError repo opn e)" "st' = s1"
          by (simp_all add: withRetry_from_throw)
        moreover have "wraps repo (Threw (GitHubApiError repo opn e)) [Failed req e]"
          using named by (auto simp: wraps_def append_eq_Cons_conv Cons_eq_append_conv)
        ultimately show ?thesis by (auto simp: s1_def)
      next
        case False
        with \<open>attempt \<le> MAX_RETRIES\<close> have lt: "attempt < MAX_RETRIES" and re: "isRetryableError e"
          by auto
        from run withRetry_from_retry [OF lt inv re, of lastError repo opn]
        have next_run: "withRetry_from (attempt + 1) (Some e) req oper repo opn
            (sleep (retryDelay attempt e) s1) = (res, st')" by simp
        from lt named have "(opn \<in> set (operations req) \<and> \<not> listsReleases req) \<and>
            attempt + 1 \<le> MAX_RETRIES" by simp
        from "1.IH" [OF True inv [symmetric] refl _ next_run this] False
        obtain evs where "trace st' = trace (sleep (retryDelay attempt e) s1) @ evs"
          and b: "wraps repo res evs" by auto
        then have "trace st' = trace st @ (Failed req e # Slept (retryDelay attempt e) # evs)"
          by (simp add: sleep_def s1_def)
        moreover have "wraps repo res (Failed req e # Slept (retryDelay attempt e) # evs)"
          using b re by (intro wraps_Cons) auto
        ultimately show ?thesis by blast
      qed
    qed
  qed
qed

lemma wraps_withRetry:
  assumes "opn \<in> set (operations req) \<and> \<not> listsReleases req"
  shows "emits (withRetry req oper repo opn) (wraps repo)"
proof (rule emitsI)
  fix st res st'
  assume run: "withRetry req oper repo opn st = (res, st')"
  then have "withRetry_from 1 None req oper repo opn (checkRateLimit st) = (res, st')"
    by (simp add: withRetry_def)
  moreover have "1 \<le> MAX_RETRIES" by (simp add: MAX_RETRIES_def)
  ultimately obtain evs
    where t: "trace st' = trace (checkRateLimit st) @ evs" and b: "wraps repo res evs"
    using emitsD [OF wraps_withRetry_from [OF assms]] by blast
  obtain evs0 where t0: "trace (checkRateLimit st) = trace st @ evs0"
    and sl: "\<forall>ev \<in> set evs0. \<exists>ms. ev = Slept ms"
    using trace_checkRateLimit by blast
  from wraps_slept [OF sl b] t t0
  show "\<exists>evs. trace st' = trace st @ evs \<and> wraps repo res evs"
    by auto
qed

lemma wraps_silent:
  assumes "\<And>st. trace (snd (m st)) = trace st" and "\<And>st x. fst (m st) \<noteq> Threw x"
  shows "emits m (wraps repo)"
proof (rule emitsI)
  fix st res st'
  assume "m st = (res, st')"
  with assms(1) [of st] assms(2) [of st] show "\<exists>evs. trace st' = trace st @ evs \<and> wraps repo res evs"
    by auto
qed

lemma wraps_fetchDefaultBranch: "emits (fetchDefaultBranch srv repo) (wraps repo)"
  unfolding fetchDefaultBranch_def
  by (intro wraps_andThen wraps_withRetry wraps_silent)
     (simp_all add: rememberBranch_def Let_def)

lemma wraps_getDefaultBranch: "emits (getDefaultBranch srv repo) (wraps repo)"
proof (rule emitsI)
  fix st res st'
  assume run: "getDefaultBranch srv repo st = (res, st')"
  show "\<exists>evs. trace st' = trace st @ evs \<and> wraps repo res evs"
  proof (cases "\<exists>cached. repoBranchCache st repo = Some cached \<and> cached \<noteq> []")
    case True
    with run have "st' = st" "\<exists>b. res = Returned b" by (auto simp: getDefaultBranch_def)
    then show ?thesis by auto
  next
    case False
    with run have "fetchDefaultBranch srv repo st = (res, st')"
      by (auto simp: getDefaultBranch_def split: option.splits if_splits)
    from emitsD [OF wraps_fetchDefaultBranch this] show ?thesis by blast
  qed
qed

lemma wraps_targetBranch: "emits (targetBranch srv repo branch) (wraps repo)"
  by (cases branch) (simp_all add: targetBranch_def wraps_return wraps_getDefaultBranch)





lemma wraps_firstCommitParent:
  "emits (firstCommitParent cfg srv repo branch) (wraps repo)"
  unfolding firstCommitParent_def Let_def
  by (intro wraps_andThen wraps_withRetry allI)
     (auto simp: wraps_return intro!: wraps_andThen wraps_withRetry split: list.split)

lemma wraps_lineStats: "emits (lineStats cfg srv repo branch) (wraps repo)"
  unfolding lineStats_def Let_def
  by (intro wraps_andThen wraps_withRetry allI)
     (auto simp: wraps_return wraps_firstCommitParent
           intro!: wraps_andThen wraps_withRetry split: list.split base.split)

lemma wraps_getLinesOfCode:
  "emits (getLinesOfCode cfg srv repo branch) (wraps repo)"
  unfolding getLinesOfCode_def
  by (auto simp: wraps_return throw_def
        intro!: wraps_andThen wraps_targetBranch wraps_tryCatch wraps_lineStats)

lemma isEmptyRepoError_wrapped [simp]:
  "isEmptyRepoError (GitHubApiError repo opn e) = empty_history e"
  by (auto simp: isEmptyRepoError_def empty_history_def empty_history_status_def
      split: option.splits)

lemma safe_run:
  "safe m d st =
     (case m st of
        (Threw x, s1) \<Rightarrow> if isEmptyRepoError x then (Returned d, s1) else (Threw x, s1)
      | (res, s1) \<Rightarrow> (res, s1))"
  by (simp add: safe_def tryCatch_def return_def throw_def split: prod.splits outcome.splits)








lemma reports_nil [simp]: "reports repo res [] = (\<forall>x. res \<noteq> Threw x)"
  by (auto simp: reports_def)




subsection \<open>The five promises\<close>

lemma emits_forked:
  assumes "emits m Q"
  shows "emits (forked start m) Q"
proof (rule emitsI)
  fix st res st'
  assume run: "forked start m st = (res, st')"
  obtain r1 s1 where m1: "m (st\<lparr>clock := start\<rparr>) = (r1, s1)"
    by (cases "m (st\<lparr>clock := start\<rparr>)")
  from emitsD [OF assms m1] obtain evs
    where "trace s1 = trace (st\<lparr>clock := start\<rparr>) @ evs" and "Q r1 evs" by blast
  moreover from run m1 have "res = r1" "trace st' = trace s1"
    by (auto simp: forked_def)
  ultimately show "\<exists>evs. trace st' = trace st @ evs \<and> Q res evs" by auto
qed

lemma emits_whenSettled:
  assumes "emits m (\<lambda>res evs1. emits (f res) (\<lambda>res2 evs2. Q res2 (evs1 @ evs2)))"
  shows "emits (whenSettled m f) Q"
proof (rule emitsI)
  fix st res st'
  assume run: "whenSettled m f st = (res, st')"
  obtain r1 s1 where m1: "m st = (r1, s1)" by (cases "m st")
  from emitsD [OF assms m1] obtain evs1 where t1: "trace s1 = trace st @ evs1"
    and q1: "emits (f r1) (\<lambda>res2 evs2. Q res2 (evs1 @ evs2))"
    by blast
  from run m1 have "f r1 s1 = (res, st')" by (simp add: whenSettled_def)
  from emitsD [OF q1 this] obtain evs2
    where "trace st' = trace s1 @ evs2" and "Q res (evs1 @ evs2)" by blast
  with t1 show "\<exists>evs. trace st' = trace st @ evs \<and> Q res evs" by auto
qed

text \<open>One step of \<open>settleAll\<close>, for each of the five collectors.\<close>

lemma emits_settleAll_Nil:
  "Q (Returned slots) [] \<Longrightarrow> emits (settleAll [] a b c d e start slots) Q"
  by (simp add: emits_def)

lemma emits_settleAll_Cons:
  assumes "emits a (\<lambda>res evs1.
      emits (settleAll ks a b c d e start
               (slots\<lparr>commits_settled := res, rejected := firstRejection (rejected slots) res\<rparr>))
        (\<lambda>res2 evs2. Q res2 (evs1 @ evs2)))"
  shows "emits (settleAll (CommitCount # ks) a b c d e start slots) Q"
proof -
  have "emits (whenSettled (forked start a)
      (\<lambda>res. settleAll ks a b c d e start
               (slots\<lparr>commits_settled := res, rejected := firstRejection (rejected slots) res\<rparr>))) Q"
    by (rule emits_whenSettled, rule emits_forked, rule assms)
  then show ?thesis
    unfolding emits_def by simp
qed

lemma emits_settleAll_LinesOfCode:
  assumes "emits b (\<lambda>res evs1.
      emits (settleAll ks a b c d e start
               (slots\<lparr>lines_settled := res, rejected := firstRejection (rejected slots) res\<rparr>))
        (\<lambda>res2 evs2. Q res2 (evs1 @ evs2)))"
  shows "emits (settleAll (LinesOfCode # ks) a b c d e start slots) Q"
proof -
  have "emits (whenSettled (forked start b)
      (\<lambda>res. settleAll ks a b c d e start
               (slots\<lparr>lines_settled := res, rejected := firstRejection (rejected slots) res\<rparr>))) Q"
    by (rule emits_whenSettled, rule emits_forked, rule assms)
  then show ?thesis
    unfolding emits_def by simp
qed

lemma emits_settleAll_PullRequestCount:
  assumes "emits c (\<lambda>res evs1.
      emits (settleAll ks a b c d e start
               (slots\<lparr>pulls_settled := res, rejected := firstRejection (rejected slots) res\<rparr>))
        (\<lambda>res2 evs2. Q res2 (evs1 @ evs2)))"
  shows "emits (settleAll (PullRequestCount # ks) a b c d e start slots) Q"
proof -
  have "emits (whenSettled (forked start c)
      (\<lambda>res. settleAll ks a b c d e start
               (slots\<lparr>pulls_settled := res, rejected := firstRejection (rejected slots) res\<rparr>))) Q"
    by (rule emits_whenSettled, rule emits_forked, rule assms)
  then show ?thesis
    unfolding emits_def by simp
qed

lemma emits_settleAll_Contributors:
  assumes "emits d (\<lambda>res evs1.
      emits (settleAll ks a b c d e start
               (slots\<lparr>contributors_settled := res, rejected := firstRejection (rejected slots) res\<rparr>))
        (\<lambda>res2 evs2. Q res2 (evs1 @ evs2)))"
  shows "emits (settleAll (Contributors # ks) a b c d e start slots) Q"
proof -
  have "emits (whenSettled (forked start d)
      (\<lambda>res. settleAll ks a b c d e start
               (slots\<lparr>contributors_settled := res, rejected := firstRejection (rejected slots) res\<rparr>))) Q"
    by (rule emits_whenSettled, rule emits_forked, rule assms)
  then show ?thesis
    unfolding emits_def by simp
qed

lemma emits_settleAll_ReleaseCount:
  assumes "emits e (\<lambda>res evs1.
      emits (settleAll ks a b c d e start
               (slots\<lparr>releases_settled := res, rejected := firstRejection (rejected slots) res\<rparr>))
        (\<lambda>res2 evs2. Q res2 (evs1 @ evs2)))"
  shows "emits (settleAll (ReleaseCount # ks) a b c d e start slots) Q"
proof -
  have "emits (whenSettled (forked start e)
      (\<lambda>res. settleAll ks a b c d e start
               (slots\<lparr>releases_settled := res, rejected := firstRejection (rejected slots) res\<rparr>))) Q"
    by (rule emits_whenSettled, rule emits_forked, rule assms)
  then show ?thesis
    unfolding emits_def by simp
qed

lemmas emits_settleAll =
  emits_settleAll_Nil emits_settleAll_Cons emits_settleAll_LinesOfCode
  emits_settleAll_PullRequestCount emits_settleAll_Contributors emits_settleAll_ReleaseCount

text \<open>
  An invariant of the five promises and of the events so far, kept by each collector as it
  settles, holds when all have settled.
\<close>

lemma settleAll_invariant:
  assumes a: "emits a A" and b: "emits b B" and c: "emits c C" and d: "emits d D"
    and e: "emits e E"
    and sa: "\<And>seen slots evs res evs1. I seen slots evs \<Longrightarrow> A res evs1 \<Longrightarrow>
        I (seen @ [CommitCount])
          (slots\<lparr>commits_settled := res, rejected := firstRejection (rejected slots) res\<rparr>)
          (evs @ evs1)"
    and sb: "\<And>seen slots evs res evs1. I seen slots evs \<Longrightarrow> B res evs1 \<Longrightarrow>
        I (seen @ [LinesOfCode])
          (slots\<lparr>lines_settled := res, rejected := firstRejection (rejected slots) res\<rparr>)
          (evs @ evs1)"
    and sc: "\<And>seen slots evs res evs1. I seen slots evs \<Longrightarrow> C res evs1 \<Longrightarrow>
        I (seen @ [PullRequestCount])
          (slots\<lparr>pulls_settled := res, rejected := firstRejection (rejected slots) res\<rparr>)
          (evs @ evs1)"
    and sd: "\<And>seen slots evs res evs1. I seen slots evs \<Longrightarrow> D res evs1 \<Longrightarrow>
        I (seen @ [Contributors])
          (slots\<lparr>contributors_settled := res, rejected := firstRejection (rejected slots) res\<rparr>)
          (evs @ evs1)"
    and se: "\<And>seen slots evs res evs1. I seen slots evs \<Longrightarrow> E res evs1 \<Longrightarrow>
        I (seen @ [ReleaseCount])
          (slots\<lparr>releases_settled := res, rejected := firstRejection (rejected slots) res\<rparr>)
          (evs @ evs1)"
  shows "I seen slots evs0 \<Longrightarrow>
         emits (settleAll ks a b c d e start slots)
           (\<lambda>res evs. \<exists>slots'. res = Returned slots' \<and> I (seen @ ks) slots' (evs0 @ evs))"
proof (induction ks arbitrary: seen slots evs0)
  case Nil
  then show ?case by (intro emits_settleAll_Nil) simp
next
  case (Cons k ks)
  have next_step: "emits (settleAll ks a b c d e start slots1)
      (\<lambda>res2 evs2. \<exists>slots'. res2 = Returned slots' \<and>
         I (seen @ k # ks) slots' (evs0 @ evs1 @ evs2))"
    if "I (seen @ [k]) slots1 (evs0 @ evs1)" for slots1 evs1
    using Cons.IH [OF that] by simp
  show ?case
  proof (cases k)
    case CommitCount
    show ?thesis
      unfolding CommitCount
      by (rule emits_settleAll_Cons, rule emits_weaken [OF a])
         (rule next_step [unfolded CommitCount], rule sa [OF Cons.prems])
  next
    case LinesOfCode
    show ?thesis
      unfolding LinesOfCode
      by (rule emits_settleAll_LinesOfCode, rule emits_weaken [OF b])
         (rule next_step [unfolded LinesOfCode], rule sb [OF Cons.prems])
  next
    case PullRequestCount
    show ?thesis
      unfolding PullRequestCount
      by (rule emits_settleAll_PullRequestCount, rule emits_weaken [OF c])
         (rule next_step [unfolded PullRequestCount], rule sc [OF Cons.prems])
  next
    case Contributors
    show ?thesis
      unfolding Contributors
      by (rule emits_settleAll_Contributors, rule emits_weaken [OF d])
         (rule next_step [unfolded Contributors], rule sd [OF Cons.prems])
  next
    case ReleaseCount
    show ?thesis
      unfolding ReleaseCount
      by (rule emits_settleAll_ReleaseCount, rule emits_weaken [OF e])
         (rule next_step [unfolded ReleaseCount], rule se [OF Cons.prems])
  qed
qed

lemma emits_promiseAll:
  assumes "\<And>start. emits (andThen (settleAll (settling order) a b c d e start pending) allSettled) Q"
  shows "emits (promiseAll order a b c d e) Q"
  using assms unfolding emits_def promiseAll_def by simp

lemma allSettled_run:
  assumes "allSettled slots st = (res, st')"
  shows "st' = st \<and> (case rejected slots of Some x \<Rightarrow> res = Threw x | None \<Rightarrow> \<forall>x. res \<noteq> Threw x)"
  using assms
  by (auto simp: allSettled_def throw_def return_def split: option.splits outcome.splits)

lemma only_promiseAll:
  assumes "emits a (only P)" and "emits b (only P)" and "emits c (only P)"
    and "emits d (only P)" and "emits e (only P)"
  shows "emits (promiseAll order a b c d e) (only P)"
proof (rule emits_promiseAll, rule emits_andThen)
  fix start
  have "emits (settleAll (settling order) a b c d e start pending)
      (\<lambda>res evs. \<exists>slots'. res = Returned slots' \<and> list_all P ([] @ evs))"
    by (rule settleAll_invariant
          [where I = "\<lambda>seen slots evs. list_all P evs" and seen = "[]", OF assms])
       (simp_all add: only_def)
  then show "emits (settleAll (settling order) a b c d e start pending)
      (\<lambda>res evs1. case res of
         Returned v \<Rightarrow> emits (allSettled v) (\<lambda>res2 evs2. only P res2 (evs1 @ evs2))
       | Threw e \<Rightarrow> only P (Threw e) evs1
       | Unfinished \<Rightarrow> only P Unfinished evs1)"
  proof (rule emits_weaken)
    fix res :: "settlement outcome" and evs
    assume "\<exists>slots'. res = Returned slots' \<and> list_all P ([] @ evs)"
    then obtain slots' where r: "res = Returned slots'" and p: "list_all P evs" by auto
    have "emits (allSettled slots') (\<lambda>res2 evs2. only P res2 (evs @ evs2))"
      by (rule emitsI) (use p in \<open>auto dest!: allSettled_run simp: only_def\<close>)
    with r show "case res of
         Returned v \<Rightarrow> emits (allSettled v) (\<lambda>res2 evs2. only P res2 (evs @ evs2))
       | Threw e \<Rightarrow> only P (Threw e) evs
       | Unfinished \<Rightarrow> only P Unfinished evs"
      by simp
  qed
qed






lemma in_settling: "k \<in> set (settling order)"
  by (cases k) (auto simp: settling_def)

text \<open>
  When each of the five collectors returns, so does \<^verbatim>\<open>Promise.all\<close>, in whatever order
  they settle.
\<close>

lemma promiseAll_fulfilled:
  assumes "emits a (\<lambda>res evs. \<exists>v. res = Returned v \<and> Pa v)"
    and "emits b (\<lambda>res evs. \<exists>v. res = Returned v \<and> Pb v)"
    and "emits c (\<lambda>res evs. \<exists>v. res = Returned v \<and> Pc v)"
    and "emits d (\<lambda>res evs. \<exists>v. res = Returned v \<and> Pd v)"
    and "emits e (\<lambda>res evs. \<exists>v. res = Returned v \<and> Pe v)"
  shows "emits (promiseAll order a b c d e)
     (\<lambda>res evs. \<exists>v1 v2 v3 v4 v5. res = Returned (v1, v2, v3, v4, v5) \<and>
        Pa v1 \<and> Pb v2 \<and> Pc v3 \<and> Pd v4 \<and> Pe v5)"
proof (rule emits_promiseAll, rule emits_andThen)
  fix start
  define I where "I = (\<lambda>(seen :: collector list) (slots :: settlement) (evs :: event list).
      rejected slots = None \<and>
      (CommitCount \<in> set seen \<longrightarrow> (\<exists>v. commits_settled slots = Returned v \<and> Pa v)) \<and>
      (LinesOfCode \<in> set seen \<longrightarrow> (\<exists>v. lines_settled slots = Returned v \<and> Pb v)) \<and>
      (PullRequestCount \<in> set seen \<longrightarrow> (\<exists>v. pulls_settled slots = Returned v \<and> Pc v)) \<and>
      (Contributors \<in> set seen \<longrightarrow> (\<exists>v. contributors_settled slots = Returned v \<and> Pd v)) \<and>
      (ReleaseCount \<in> set seen \<longrightarrow> (\<exists>v. releases_settled slots = Returned v \<and> Pe v)))"
  have "emits (settleAll (settling order) a b c d e start pending)
      (\<lambda>res evs. \<exists>slots'. res = Returned slots' \<and> I ([] @ settling order) slots' ([] @ evs))"
    by (rule settleAll_invariant [where I = I and seen = "[]", OF assms])
       (auto simp: I_def firstRejection_def pending_def)
  then show "emits (settleAll (settling order) a b c d e start pending)
      (\<lambda>res evs1. case res of
         Returned v \<Rightarrow>
           emits (allSettled v)
             (\<lambda>res2 evs2. \<exists>v1 v2 v3 v4 v5. res2 = Returned (v1, v2, v3, v4, v5) \<and>
                Pa v1 \<and> Pb v2 \<and> Pc v3 \<and> Pd v4 \<and> Pe v5)
       | Threw e \<Rightarrow> \<exists>v1 v2 v3 v4 v5. Threw e = Returned (v1, v2, v3, v4, v5) \<and>
                Pa v1 \<and> Pb v2 \<and> Pc v3 \<and> Pd v4 \<and> Pe v5
       | Unfinished \<Rightarrow> \<exists>v1 v2 v3 v4 v5. Unfinished = Returned (v1, v2, v3, v4, v5) \<and>
                Pa v1 \<and> Pb v2 \<and> Pc v3 \<and> Pd v4 \<and> Pe v5)"
  proof (rule emits_weaken)
    fix res :: "settlement outcome" and evs
    assume "\<exists>slots'. res = Returned slots' \<and> I ([] @ settling order) slots' ([] @ evs)"
    then obtain slots' where r: "res = Returned slots'" and p: "I (settling order) slots' evs"
      by auto
    from p obtain v1 v2 v3 v4 v5 where "rejected slots' = None"
      "commits_settled slots' = Returned v1" "Pa v1"
      "lines_settled slots' = Returned v2" "Pb v2"
      "pulls_settled slots' = Returned v3" "Pc v3"
      "contributors_settled slots' = Returned v4" "Pd v4"
      "releases_settled slots' = Returned v5" "Pe v5"
      unfolding I_def using in_settling by blast
    then have "emits (allSettled slots')
             (\<lambda>res2 evs2. \<exists>v1 v2 v3 v4 v5. res2 = Returned (v1, v2, v3, v4, v5) \<and>
                Pa v1 \<and> Pb v2 \<and> Pc v3 \<and> Pd v4 \<and> Pe v5)"
      by (intro emitsI) (auto simp: allSettled_def return_def)
    with r show "case res of
         Returned v \<Rightarrow>
           emits (allSettled v)
             (\<lambda>res2 evs2. \<exists>v1 v2 v3 v4 v5. res2 = Returned (v1, v2, v3, v4, v5) \<and>
                Pa v1 \<and> Pb v2 \<and> Pc v3 \<and> Pd v4 \<and> Pe v5)
       | Threw e \<Rightarrow> \<exists>v1 v2 v3 v4 v5. Threw e = Returned (v1, v2, v3, v4, v5) \<and>
                Pa v1 \<and> Pb v2 \<and> Pc v3 \<and> Pd v4 \<and> Pe v5
       | Unfinished \<Rightarrow> \<exists>v1 v2 v3 v4 v5. Unfinished = Returned (v1, v2, v3, v4, v5) \<and>
                Pa v1 \<and> Pb v2 \<and> Pc v3 \<and> Pd v4 \<and> Pe v5"
      by simp
  qed
qed

lemma settleAll_block:
  "ks = ks' \<Longrightarrow> settleAll ks a b c d e start slots = settleAll ks' a b c d e start slots"
  by simp

lemma promiseAll_block: "promiseAll order a b c d e = promiseAll order a b c d e"
  by (rule refl)

lemma collectAll_block:
  "collectAll order fuel cfg srv repoInfo branch = collectAll order fuel cfg srv repoInfo branch"
  by (rule refl)

lemmas run_congs = step_congs settleAll_block promiseAll_block collectAll_block

lemmas settled_simps = settling_def allSettled_def pending_def firstRejection_def

lemma getRepoStats_uncached:
  assumes "repoBranchCache st (name repoInfo) = None"
  shows "getRepoStats order fuel cfg srv repoInfo st =
         andThen (resolveBranch (fetchDefaultBranch srv) repoInfo)
           (\<lambda>resolved.
              (case resolved of
                 None \<Rightarrow> return (emptyStats repoInfo)
               | Some branch \<Rightarrow> collectAll order fuel cfg srv repoInfo branch)) st"
  using assms
  by (simp add: getRepoStats_def resolveBranch_def andThen_def tryCatch_def getDefaultBranch_def)

subsection \<open>The collectors on the repository with one commit\<close>

text \<open>A request that is refused at once, with an error that is not retryable.\<close>

lemma emits_withRetry_refused:
  assumes "\<And>n. oper n = Inl e" and "\<not> isRetryableError e"
    and "\<And>evs. requests evs = [req] \<Longrightarrow> Failed req e \<in> set evs \<Longrightarrow>
           Q (Threw (GitHubApiError repo opn e)) evs"
  shows "emits (withRetry req oper repo opn) Q"
proof (rule emitsI)
  fix st res st'
  assume run: "withRetry req oper repo opn st = (res, st')"
  obtain evs0 where t0: "trace (checkRateLimit st) = trace st @ evs0" and r0: "requests evs0 = []"
    using requests_checkRateLimit by blast
  from run assms(1,2) have "res = Threw (GitHubApiError repo opn e)"
    and "trace st' = trace (checkRateLimit st) @ [Failed req e]"
    by (auto simp: withRetry_first)
  with t0 r0 assms(3) [of "evs0 @ [Failed req e]"]
  show "\<exists>evs. trace st' = trace st @ evs \<and> Q res evs" by auto
qed

text \<open>A request that is refused with a retryable error at every attempt.\<close>

lemma emits_withRetry_exhausted:
  assumes "\<And>n. oper n = Inl e" and "isRetryableError e"
    and "\<And>evs. requests evs = [req, req, req] \<Longrightarrow> Failed req e \<in> set evs \<Longrightarrow>
           Q (Threw (GitHubApiError repo opn e)) evs"
  shows "emits (withRetry req oper repo opn) Q"
proof (rule emitsI)
  fix st res st'
  assume run: "withRetry req oper repo opn st = (res, st')"
  obtain evs0 where t0: "trace (checkRateLimit st) = trace st @ evs0" and r0: "requests evs0 = []"
    using requests_checkRateLimit by blast
  define s0 where "s0 = checkRateLimit st"
  define s1 where "s1 = s0\<lparr>issued := issued s0 + 1, trace := trace s0 @ [Failed req e]\<rparr>"
  define s1' where "s1' = sleep (retryDelay 1 e) s1"
  define s2 where "s2 = s1'\<lparr>issued := issued s1' + 1, trace := trace s1' @ [Failed req e]\<rparr>"
  define s2' where "s2' = sleep (retryDelay 2 e) s2"
  define s3 where "s3 = s2'\<lparr>issued := issued s2' + 1, trace := trace s2' @ [Failed req e]\<rparr>"
  have inv1: "invoke req oper s0 = (Inl e, s1)"
    using assms(1) by (simp add: invoke_def s1_def)
  have inv2: "invoke req oper s1' = (Inl e, s2)"
    using assms(1) by (simp add: invoke_def s2_def)
  have inv3: "invoke req oper s2' = (Inl e, s3)"
    using assms(1) by (simp add: invoke_def s3_def)
  have "withRetry req oper repo opn st = withRetry_from 1 None req oper repo opn s0"
    by (simp add: withRetry_def s0_def)
  also have "\<dots> = withRetry_from 2 (Some e) req oper repo opn s1'"
  proof -
    have "(1::nat) < MAX_RETRIES" by (simp add: MAX_RETRIES_def)
    from withRetry_from_retry [OF this inv1 assms(2), of None repo opn]
    show ?thesis by (simp only: s1'_def one_add_one)
  qed
  also have "\<dots> = withRetry_from 3 (Some e) req oper repo opn s2'"
  proof -
    have "(2::nat) < MAX_RETRIES" by (simp add: MAX_RETRIES_def)
    moreover have "(2::nat) + 1 = 3" by simp
    ultimately show ?thesis
      using withRetry_from_retry [OF _ inv2 assms(2), of 2 "Some e" repo opn]
      by (simp only: s2'_def)
  qed
  also have "\<dots> = (Threw (GitHubApiError repo opn e), s3)"
    by (rule withRetry_from_throw [OF _ inv3]) (simp_all add: MAX_RETRIES_def)
  finally have "res = Threw (GitHubApiError repo opn e)" and "st' = s3"
    using run by simp_all
  moreover have "trace s3 = trace st @ evs0 @
      [Failed req e, Slept (retryDelay 1 e), Failed req e, Slept (retryDelay 2 e), Failed req e]"
    by (simp add: s3_def s2'_def s2_def s1'_def s1_def s0_def sleep_def t0)
  ultimately show "\<exists>evs. trace st' = trace st @ evs \<and> Q res evs"
    using r0 assms(3) [of "evs0 @
      [Failed req e, Slept (retryDelay 1 e), Failed req e, Slept (retryDelay 2 e), Failed req e]"]
    by auto
qed

lemma status_server_error [simp]: "status server_error = Some 500"
  by (simp add: server_error_def)

lemma status_bad_gateway [simp]: "status bad_gateway = Some 502"
  by (simp add: bad_gateway_def)

lemmas one_commit_simps =
  one_commit_repository_def root_commit_def sample_config_def pageSize_def page_of_def
  in_window_def commitsInRange_def

lemma one_commit_count:
  assumes "listCommits srv = hosted_listCommits one_commit_repository"
  shows "emits (safe (getCommitCount (Suc fuel) sample_config srv ''alpha'' (Some ''main'')) 0)
     (\<lambda>res evs. res = Returned 1 \<and>
        requests evs = [ListCommits ''alpha'' ''main'' (Some 1000) (Some 2000) 2 (Some 1)])"
  unfolding collector_defs
  by (rule emits_safe emits_andThen emits_tryCatch emits_return emits_throw emits_paged_Suc
        emits_listCommits [where r = one_commit_repository, OF assms]
      | simp add: one_commit_simps Let_def cong: step_congs)+

lemma one_commit_lines:
  assumes "listCommits srv = hosted_listCommits one_commit_repository"
    and "getCommit srv = hosted_getCommit one_commit_repository"
  shows "emits (safe (getLinesOfCode sample_config srv ''alpha'' (Some ''main'')) no_lines)
     (\<lambda>res evs. res = Returned \<lparr>added = 10, deleted = 0\<rparr> \<and>
        requests evs =
          [ListCommits ''alpha'' ''main'' None (Some 2000) 1 None,
           ListCommits ''alpha'' ''main'' None (Some 999) 1 None,
           ListCommits ''alpha'' ''main'' (Some 1000) (Some 2000) 2 None,
           GetCommit ''alpha'' ''c1''])"
  unfolding collector_defs
  by (rule emits_safe emits_andThen emits_tryCatch emits_return emits_throw
        emits_listCommits [where r = one_commit_repository, OF assms(1)]
        emits_getCommit [where r = one_commit_repository and c = root_commit, OF assms(2)]
      | simp add: one_commit_simps Let_def rootStats_def or_zero_def cong: step_congs)+

lemma one_commit_pulls:
  assumes "pulls_list srv = hosted_pulls_list one_commit_repository"
  shows "emits (safe (getPullRequestCount (Suc fuel) sample_config srv ''alpha'' (Some ''main'')) 0)
     (\<lambda>res evs. res = Returned 0 \<and> requests evs = [PullsList ''alpha'' ''main'' 2 1])"
  unfolding collector_defs
  by (rule emits_safe emits_andThen emits_return emits_paged_Suc
        emits_pulls_list [where r = one_commit_repository, OF assms]
      | simp add: one_commit_simps cong: step_congs)+

lemma one_commit_authors:
  assumes "listCommits srv = hosted_listCommits one_commit_repository"
  shows "emits (safe (getContributors (Suc fuel) sample_config srv ''alpha'' (Some ''main'')) [])
     (\<lambda>res evs. res = Returned [''ann''] \<and>
        requests evs = [ListCommits ''alpha'' ''main'' (Some 1000) (Some 2000) 2 (Some 1)])"
  unfolding collector_defs
  by (rule emits_safe emits_andThen emits_tryCatch emits_return emits_throw emits_paged_Suc
        emits_listCommits [where r = one_commit_repository, OF assms]
      | simp add: one_commit_simps Let_def commit_author_def set_add_def cong: step_congs)+

lemma one_commit_releases:
  assumes "listReleases srv = hosted_listReleases one_commit_repository"
  shows "emits (safe (getReleaseCount (Suc fuel) sample_config srv ''alpha'') 0)
     (\<lambda>res evs. res = Returned 0 \<and> requests evs = [ListReleases ''alpha'' 2 1])"
  unfolding collector_defs
  by (rule emits_safe emits_andThen emits_tryCatch emits_return emits_paged_Suc
        emits_listReleases [where r = one_commit_repository, OF assms]
      | simp add: one_commit_simps cong: step_congs)+

text \<open>A listing of releases, or of pull requests, that the service refuses with status 500.\<close>

lemma releases_refused:
  assumes "listReleases srv = (\<lambda>n req. Inl server_error)"
  shows "emits (safe (getReleaseCount (Suc fuel) sample_config srv ''alpha'') 0)
     (\<lambda>res evs. res = Returned 0 \<and> requests evs = [ListReleases ''alpha'' 2 1] \<and>
        Failed (ListReleases ''alpha'' 2 1) server_error \<in> set evs)"
  unfolding collector_defs
  by (rule emits_safe emits_andThen emits_tryCatch emits_return emits_paged_Suc
        emits_withRetry_refused [where e = server_error]
      | simp add: assms one_commit_simps fatal_server_error cong: step_congs)+

lemma pulls_refused:
  assumes "pulls_list srv = (\<lambda>n req. Inl server_error)"
  shows "emits (safe (getPullRequestCount (Suc fuel) sample_config srv ''alpha'' (Some ''main'')) 0)
     (\<lambda>res evs.
        res = Threw (GitHubApiError ''alpha'' ''fetching pull requests'' server_error) \<and>
        requests evs = [PullsList ''alpha'' ''main'' 2 1] \<and>
        Failed (PullsList ''alpha'' ''main'' 2 1) server_error \<in> set evs)"
  unfolding collector_defs
  by (rule emits_safe emits_andThen emits_return emits_paged_Suc
        emits_withRetry_refused [where e = server_error]
      | simp add: assms one_commit_simps fatal_server_error empty_history_def cong: step_congs)+

text \<open>A listing of commits that the service refuses with status 502 at every attempt.\<close>

lemma history_down_count:
  assumes "listCommits srv = (\<lambda>n req. Inl bad_gateway)"
  shows "emits (safe (getCommitCount (Suc fuel) sample_config srv ''alpha'' (Some ''main'')) 0)
     (\<lambda>res evs. res = Threw (GitHubApiError ''alpha'' ''fetching commits'' bad_gateway) \<and>
        requests evs =
          replicate 3 (ListCommits ''alpha'' ''main'' (Some 1000) (Some 2000) 2 (Some 1)))"
  unfolding collector_defs
  by (rule emits_safe emits_andThen emits_tryCatch emits_return emits_throw emits_paged_Suc
        emits_withRetry_exhausted [where e = bad_gateway]
      | simp add: assms one_commit_simps retryable_bad_gateway empty_history_def
          eval_nat_numeral cong: step_congs)+

lemma history_down_lines:
  assumes "listCommits srv = (\<lambda>n req. Inl bad_gateway)"
  shows "emits (safe (getLinesOfCode sample_config srv ''alpha'' (Some ''main'')) no_lines)
     (\<lambda>res evs. res = Threw (GitHubApiError ''alpha'' ''finding end commit'' bad_gateway) \<and>
        requests evs = replicate 3 (ListCommits ''alpha'' ''main'' None (Some 2000) 1 None))"
  unfolding collector_defs
  by (rule emits_safe emits_andThen emits_tryCatch emits_return emits_throw
        emits_withRetry_exhausted [where e = bad_gateway]
      | simp add: assms one_commit_simps retryable_bad_gateway empty_history_def
          eval_nat_numeral cong: step_congs)+

lemma history_down_authors:
  assumes "listCommits srv = (\<lambda>n req. Inl bad_gateway)"
  shows "emits (safe (getContributors (Suc fuel) sample_config srv ''alpha'' (Some ''main'')) [])
     (\<lambda>res evs. res = Threw (GitHubApiError ''alpha'' ''fetching contributors'' bad_gateway) \<and>
        requests evs =
          replicate 3 (ListCommits ''alpha'' ''main'' (Some 1000) (Some 2000) 2 (Some 1)))"
  unfolding collector_defs
  by (rule emits_safe emits_andThen emits_tryCatch emits_return emits_throw emits_paged_Suc
        emits_withRetry_exhausted [where e = bad_gateway]
      | simp add: assms one_commit_simps retryable_bad_gateway empty_history_def
          eval_nat_numeral cong: step_congs)+

subsection \<open>Missing history is not a failure\<close>

text \<open>
  C2. The line-delta collector as \<open>getRepoStats\<close> runs it, wrapped in \<open>safe\<close> with the default
  \<open>{added: 0, deleted: 0}\<close>, for every configuration, service, repository, branch and state.
  A request of the sequence that fails with status 404, 409 or 422 and is not retried ends
  the sequence (no event follows it), and the collector returns \<open>{added: 0, deleted: 0}\<close>.
  Whenever the run ends on a request failed with one of these statuses, which covers a
  retryable failure given up at the third attempt, the collector returns
  \<open>{added: 0, deleted: 0}\<close>. And what the collector throws is always the last failed request
  of the run, wrapped, with a status other than these three: a failure with status 404, 409
  or 422 is never thrown to the caller. The failed request may be any of the sequence, the
  resolution of the default branch included.
\<close>

theorem getLinesOfCode_empty_history:
  assumes run: "safe (getLinesOfCode cfg srv repo branch) no_lines st = (res, st')"
  shows "\<exists>evs. trace st' = trace st @ evs \<and>
           (\<forall>pre req e post.
              evs = pre @ Failed req e # post \<and> empty_history e \<and> \<not> isRetryableError e \<longrightarrow>
              post = [] \<and> res = Returned no_lines) \<and>
           (\<forall>pre req e. evs = pre @ [Failed req e] \<and> empty_history e \<longrightarrow>
              res = Returned no_lines) \<and>
           (\<forall>x. res = Threw x \<longrightarrow>
              (\<exists>pre req e opn. evs = pre @ [Failed req e] \<and> \<not> empty_history e \<and>
                 x = GitHubApiError repo opn e))"
proof -
  obtain r1 s1 where inner: "getLinesOfCode cfg srv repo branch st = (r1, s1)"
    by (cases "getLinesOfCode cfg srv repo branch st")
  from emitsD [OF wraps_getLinesOfCode inner] obtain evs
    where t: "trace s1 = trace st @ evs" and w: "wraps repo r1 evs"
    by blast
  from emitsD [OF blames_getLinesOfCode [where G = "\<lambda>req e. True"] inner] t
  have b: "blames (\<lambda>req e. True) repo r1 evs"
    by auto
  from safe_pure [OF run inner] have s: "st' = s1" .
  have final: "post = [] \<and> res = Returned no_lines"
    if "evs = pre @ Failed req e # post" "empty_history e" "\<not> isRetryableError e"
    for pre req e post
  proof -
    from w that(1,3) obtain opn where "post = []" "r1 = Threw (GitHubApiError repo opn e)"
      unfolding wraps_def by blast
    with run inner that(2) show ?thesis by (simp add: safe_run)
  qed
  have last: "res = Returned no_lines"
    if "evs = pre @ [Failed req e]" "empty_history e" for pre req e
  proof -
    from b that(1) obtain opn where "r1 = Threw (GitHubApiError repo opn e)"
      by (auto simp: blames_def ends_with_failure_def)
    with run inner that(2) show ?thesis by (simp add: safe_run)
  qed
  have thrown: "\<exists>pre req e opn. evs = pre @ [Failed req e] \<and> \<not> empty_history e \<and>
      x = GitHubApiError repo opn e" if "res = Threw x" for x
  proof -
    from run inner that have r: "r1 = Threw x" and ne: "\<not> isEmptyRepoError x"
      by (auto simp: safe_run split: outcome.splits if_splits)
    with w obtain pre req e opn where "evs = pre @ [Failed req e]"
      and "x = GitHubApiError repo opn e"
      unfolding wraps_def by blast
    with ne show ?thesis by auto
  qed
  from t s final last thrown show ?thesis by blast
qed

text \<open>
  On a service that answers 404 to the lookup of the oldest commit, the fourth request of
  the sequence, the collector returns \<open>{added: 0, deleted: 0}\<close> and sends nothing after it.
\<close>

lemma commit_lookup_down_lines:
  "emits (safe (getLinesOfCode sample_config commit_lookup_down ''alpha'' (Some ''main'')) no_lines)
     (\<lambda>res evs.
        requests evs =
          [ListCommits ''alpha'' ''main'' None (Some 2000) 1 None,
           ListCommits ''alpha'' ''main'' None (Some 999) 1 None,
           ListCommits ''alpha'' ''main'' (Some 1000) (Some 2000) 2 None,
           GetCommit ''alpha'' ''c1''] \<and>
        Failed (GetCommit ''alpha'' ''c1'') not_found \<in> set evs)"
  unfolding collector_defs
  by (rule emits_safe emits_andThen emits_tryCatch emits_return emits_throw
        emits_listCommits [where r = one_commit_repository]
        emits_withRetry_refused [where e = not_found]
      | simp add: commit_lookup_down_def hosted_def one_commit_simps Let_def fatal_not_found
          empty_history_def cong: step_congs)+

theorem getLinesOfCode_empty_history_witness:
  "empty_history not_found \<and> \<not> isRetryableError not_found \<and>
   fst (safe (getLinesOfCode sample_config commit_lookup_down ''alpha'' (Some ''main''))
          no_lines (new_client 0)) = Returned no_lines \<and>
   requests (trace (snd (safe (getLinesOfCode sample_config commit_lookup_down ''alpha''
                                 (Some ''main'')) no_lines (new_client 0)))) =
     [ListCommits ''alpha'' ''main'' None (Some 2000) 1 None,
      ListCommits ''alpha'' ''main'' None (Some 999) 1 None,
      ListCommits ''alpha'' ''main'' (Some 1000) (Some 2000) 2 None,
      GetCommit ''alpha'' ''c1''] \<and>
   last (trace (snd (safe (getLinesOfCode sample_config commit_lookup_down ''alpha''
                             (Some ''main'')) no_lines (new_client 0)))) =
     Failed (GetCommit ''alpha'' ''c1'') not_found"
proof -
  obtain res st' where run:
    "safe (getLinesOfCode sample_config commit_lookup_down ''alpha'' (Some ''main''))
       no_lines (new_client 0) = (res, st')"
    by (cases "safe (getLinesOfCode sample_config commit_lookup_down ''alpha'' (Some ''main''))
       no_lines (new_client 0)")
  have e: "empty_history not_found" by (simp add: empty_history_def not_found_def)
  from emitsD [OF commit_lookup_down_lines run] obtain sent
    where t: "trace st' = trace (new_client 0) @ sent"
      and r: "requests sent =
        [ListCommits ''alpha'' ''main'' None (Some 2000) 1 None,
         ListCommits ''alpha'' ''main'' None (Some 999) 1 None,
         ListCommits ''alpha'' ''main'' (Some 1000) (Some 2000) 2 None,
         GetCommit ''alpha'' ''c1'']"
      and f: "Failed (GetCommit ''alpha'' ''c1'') not_found \<in> set sent"
    by blast
  from f obtain pre post where s: "sent = pre @ Failed (GetCommit ''alpha'' ''c1'') not_found # post"
    by (auto dest: split_list)
  from getLinesOfCode_empty_history [OF run] t obtain
    final: "\<forall>pre req e post.
      sent = pre @ Failed req e # post \<and> empty_history e \<and> \<not> isRetryableError e \<longrightarrow>
      post = [] \<and> res = Returned no_lines"
    by auto
  with s e fatal_not_found have "post = []" "res = Returned no_lines"
    by blast+
  with run t r s e fatal_not_found show ?thesis
    by (simp add: new_client_def)
qed

subsection \<open>A rejected collection rejects the run\<close>

declare processRepos_from.simps [simp del]

lemma slice_batch:
  "slice repos i (min (i + concurrency) (length repos)) = take concurrency (drop i repos)"
  by (simp add: slice_def min_def)



subsection \<open>Failures that end the collection of a repository\<close>





text \<open>
  C3 as the specification states it fails for the release counter: with a service whose
  listing of releases fails with status 500 (a fatal failure), the collection of the
  repository returns its record, with \<open>releases = 0\<close>.
\<close>

lemma releases_down_collectAll:
  "emits (collectAll [] 3 sample_config releases_down alpha ''main'')
     (\<lambda>res evs.
        res = Returned
          \<lparr>stats_name = ''alpha'', stats_isArchived = False, commits = 1,
           linesAdded = 10, linesDeleted = 0, totalLines = 10, pullRequests = 0,
           contributors = 1, contributorsList = [''ann''], issuesCreated = 0,
           issuesClosed = 0, releases = 0\<rparr> \<and>
        requests evs =
          [ListCommits ''alpha'' ''main'' (Some 1000) (Some 2000) 2 (Some 1),
           ListCommits ''alpha'' ''main'' None (Some 2000) 1 None,
           ListCommits ''alpha'' ''main'' None (Some 999) 1 None,
           ListCommits ''alpha'' ''main'' (Some 1000) (Some 2000) 2 None,
           GetCommit ''alpha'' ''c1'',
           PullsList ''alpha'' ''main'' 2 1,
           ListCommits ''alpha'' ''main'' (Some 1000) (Some 2000) 2 (Some 1),
           ListReleases ''alpha'' 2 1] \<and>
        Failed (ListReleases ''alpha'' 2 1) server_error \<in> set evs)"
  unfolding collectAll_def alpha_def numeral_3_eq_3 RepoInfo.select_convs
  by (rule emits_andThen emits_promiseAll emits_settleAll emits_return emits_throw
        emits_weaken [OF one_commit_count] emits_weaken [OF one_commit_lines]
        emits_weaken [OF one_commit_pulls] emits_weaken [OF one_commit_authors]
        emits_weaken [OF releases_refused]
      | simp add: settled_simps releases_down_def hosted_def cong: run_congs)+

lemma releases_down_run:
  "emits (andThen (resolveBranch (fetchDefaultBranch releases_down) alpha)
           (\<lambda>resolved.
              (case resolved of
                 None \<Rightarrow> return (emptyStats alpha)
               | Some branch \<Rightarrow> collectAll [] 3 sample_config releases_down alpha branch)))
     (\<lambda>res evs.
        res = Returned
          \<lparr>stats_name = ''alpha'', stats_isArchived = False, commits = 1,
           linesAdded = 10, linesDeleted = 0, totalLines = 10, pullRequests = 0,
           contributors = 1, contributorsList = [''ann''], issuesCreated = 0,
           issuesClosed = 0, releases = 0\<rparr> \<and>
        Failed (ListReleases ''alpha'' 2 1) server_error \<in> set evs)"
  unfolding resolveBranch_def fetchDefaultBranch_def
  apply (rule emits_andThen emits_tryCatch emits_repos_get [where r = one_commit_repository]
        emits_rememberBranch emits_return
      | simp add: releases_down_def hosted_def one_commit_repository_def alpha_def
          cong: run_congs)+
  apply (rule emits_weaken [OF releases_down_collectAll])
  apply auto
  done


text \<open>
  Which rejection is the one of \<^verbatim>\<open>Promise.all\<close>. The listing of commits is refused with
  status 502 at every attempt and the listing of pull requests with status 500. The
  pull-request counter rejects at its first request, the three collectors that list
  commits only after two sleeps: with the pull-request counter the first to settle, its
  rejection is the one of the collection, and the other four collectors still send all
  their requests.
\<close>

lemma first_rejection_collectAll:
  "emits (collectAll [PullRequestCount] 3 sample_config history_and_pulls_down alpha ''main'')
     (\<lambda>res evs.
        res = Threw (GitHubApiError ''alpha'' ''fetching pull requests'' server_error) \<and>
        requests evs =
          [PullsList ''alpha'' ''main'' 2 1,
           ListCommits ''alpha'' ''main'' (Some 1000) (Some 2000) 2 (Some 1),
           ListCommits ''alpha'' ''main'' (Some 1000) (Some 2000) 2 (Some 1),
           ListCommits ''alpha'' ''main'' (Some 1000) (Some 2000) 2 (Some 1),
           ListCommits ''alpha'' ''main'' None (Some 2000) 1 None,
           ListCommits ''alpha'' ''main'' None (Some 2000) 1 None,
           ListCommits ''alpha'' ''main'' None (Some 2000) 1 None,
           ListCommits ''alpha'' ''main'' (Some 1000) (Some 2000) 2 (Some 1),
           ListCommits ''alpha'' ''main'' (Some 1000) (Some 2000) 2 (Some 1),
           ListCommits ''alpha'' ''main'' (Some 1000) (Some 2000) 2 (Some 1),
           ListReleases ''alpha'' 2 1])"
  unfolding collectAll_def alpha_def numeral_3_eq_3 RepoInfo.select_convs
  by (rule emits_andThen emits_promiseAll emits_settleAll emits_return emits_throw
        emits_weaken [OF history_down_count] emits_weaken [OF history_down_lines]
        emits_weaken [OF pulls_refused] emits_weaken [OF history_down_authors]
        emits_weaken [OF one_commit_releases]
      | simp add: settled_simps history_and_pulls_down_def hosted_def eval_nat_numeral
          cong: run_congs)+

subsection \<open>No commit in the range\<close>

lemma pageSize_pos: "0 < pageSize cfg"
  by (simp add: pageSize_def)

lemma emits_getDefaultBranch:
  assumes "repos_get srv = hosted_repos_get r" and "repo = repo_name r"
    and "\<And>b evs. Q (Returned b) evs"
  shows "emits (getDefaultBranch srv repo) Q"
proof (rule emitsI)
  fix st res st'
  assume run: "getDefaultBranch srv repo st = (res, st')"
  show "\<exists>evs. trace st' = trace st @ evs \<and> Q res evs"
  proof (cases "\<exists>cached. repoBranchCache st repo = Some cached \<and> cached \<noteq> []")
    case True
    with run have "st' = st" "\<exists>b. res = Returned b" by (auto simp: getDefaultBranch_def)
    with assms(3) show ?thesis by auto
  next
    case False
    with run have f: "fetchDefaultBranch srv repo st = (res, st')"
      by (auto simp: getDefaultBranch_def split: option.splits if_splits)
    have "emits (fetchDefaultBranch srv repo) Q"
      unfolding fetchDefaultBranch_def
      by (rule emits_andThen emits_repos_get [where r = r] emits_rememberBranch assms
          | simp cong: step_congs)+
    from emitsD [OF this f] show ?thesis by blast
  qed
qed

lemma before_range:
  assumes "\<forall>c \<in> set cs. \<not> (start \<le> committed_at c \<and> committed_at c \<le> finish)"
    and "start \<le> finish"
  shows "filter (in_window None (Some (start - 1))) cs = filter (in_window None (Some finish)) cs"
  using assms by (intro filter_cong refl) (auto simp: in_window_def)

lemma none_in_range:
  assumes "\<forall>c \<in> set cs. \<not> (start \<le> committed_at c \<and> committed_at c \<le> finish)"
  shows "filter (in_window (Some start) (Some finish)) cs = []"
  using assms by (auto simp: in_window_def filter_empty_conv)

lemma pulls_page_hosted:
  assumes "pulls_list srv = hosted_pulls_list r" and "repo = repo_name r"
  shows "emits (getPullRequestCount_page cfg srv repo branch page count)
     (\<lambda>res evs. case res of
        Returned (Result v) \<Rightarrow> True
      | Returned (NextPage c) \<Rightarrow>
          pageSize cfg \<le> length (page_of (pageSize cfg) page (pull_requests r))
      | Threw e \<Rightarrow> False
      | Unfinished \<Rightarrow> False)"
  unfolding getPullRequestCount_page_def
  apply (rule emits_andThen)
  apply (rule emits_pulls_list [where r = r, OF assms])
  apply (auto intro!: emits_return split: flow.split)
  done

lemma page_shrinks:
  assumes "1 \<le> page" and "length (drop ((page - 1) * per) xs) < Suc fuel"
    and "per \<le> length (page_of per page xs)" and "0 < per"
  shows "length (drop ((page + 1 - 1) * per) xs) < fuel"
proof -
  from assms(3) have full: "per \<le> length (drop ((page - 1) * per) xs)"
    by (simp add: page_of_def)
  have "(page + 1 - 1) * per = (page - 1) * per + per"
    using assms(1) by (cases page) simp_all
  then have "length (drop ((page + 1 - 1) * per) xs) =
      length (drop ((page - 1) * per) xs) - per"
    by simp
  with full assms(2,4) show ?thesis by linarith
qed

lemma paged_terminates:
  assumes step: "\<And>page acc. emits (body page acc)
     (\<lambda>res evs. case res of
        Returned (Result v) \<Rightarrow> True
      | Returned (NextPage c) \<Rightarrow> per \<le> length (page_of per page xs)
      | Threw e \<Rightarrow> False
      | Unfinished \<Rightarrow> False)"
    and per: "0 < per"
  shows "1 \<le> page \<Longrightarrow> length (drop ((page - 1) * per) xs) < fuel \<Longrightarrow>
         \<forall>v evs. Q (Returned v) evs \<Longrightarrow>
         emits (paged fuel body page acc) Q"
proof (induction fuel arbitrary: page acc Q)
  case 0
  then show ?case by simp
next
  case (Suc fuel)
  show ?case
  proof (rule emits_paged_Suc, rule emits_weaken [OF step])
    fix res :: "'a flow outcome" and evs
    assume now: "case res of
        Returned (Result v) \<Rightarrow> True
      | Returned (NextPage c) \<Rightarrow> per \<le> length (page_of per page xs)
      | Threw e \<Rightarrow> False
      | Unfinished \<Rightarrow> False"
    show "case res of
        Returned (Result v) \<Rightarrow> Q (Returned v) evs
      | Returned (NextPage acc') \<Rightarrow>
          emits (paged fuel body (page + 1) acc') (\<lambda>res2 evs2. Q res2 (evs @ evs2))
      | Threw e \<Rightarrow> Q (Threw e) evs
      | Unfinished \<Rightarrow> Q Unfinished evs"
    proof (cases res)
      case (Returned fl)
      show ?thesis
      proof (cases fl)
        case (Result v)
        with Returned Suc.prems(3) show ?thesis by simp
      next
        case (NextPage c)
        with Returned now have "per \<le> length (page_of per page xs)"
          by simp
        from page_shrinks [OF Suc.prems(1,2) this per]
        have "emits (paged fuel body (page + 1) c) (\<lambda>res2 evs2. Q res2 (evs @ evs2))"
          using Suc.prems(3) by (intro Suc.IH) simp_all
        with Returned NextPage show ?thesis by simp
      qed
    qed (use now in simp_all)
  qed
qed

lemma releases_page_hosted:
  assumes "listReleases srv = hosted_listReleases r" and "repo = repo_name r"
  shows "emits (getReleaseCount_page cfg srv repo page count)
     (\<lambda>res evs. case res of
        Returned (Result v) \<Rightarrow> True
      | Returned (NextPage c) \<Rightarrow>
          pageSize cfg \<le> length (page_of (pageSize cfg) page (release_list r))
      | Threw e \<Rightarrow> False
      | Unfinished \<Rightarrow> False)"
  unfolding getReleaseCount_page_def
  apply (rule emits_tryCatch)
  apply (rule emits_andThen)
  apply (rule emits_listReleases [where r = r, OF assms])
  apply (auto intro!: emits_return split: flow.split)
  done

lemma no_commits_page:
  assumes "listCommits srv = hosted_listCommits r" and "repo = repo_name r"
    and "history r \<noteq> []"
    and "\<forall>c \<in> set (history r). \<not> (startDate cfg \<le> committed_at c \<and> committed_at c \<le> endDate cfg)"
    and "\<And>evs. Q (Returned (Result 0)) evs"
  shows "emits (getCommitCount_page cfg srv repo branch page 0) Q"
  unfolding getCommitCount_page_def commitsInRange_def
  apply (rule emits_tryCatch)
  apply (rule emits_andThen)
  apply (rule emits_listCommits [where r = r, OF assms(1-3)])
  apply (simp add: none_in_range [OF assms(4)] page_of_def pageSize_pos Let_def)
  apply (rule emits_return)
  apply (simp add: assms(5))
  done

lemma no_contributors_page:
  assumes "listCommits srv = hosted_listCommits r" and "repo = repo_name r"
    and "history r \<noteq> []"
    and "\<forall>c \<in> set (history r). \<not> (startDate cfg \<le> committed_at c \<and> committed_at c \<le> endDate cfg)"
    and "\<And>evs. Q (Returned (Result [])) evs"
  shows "emits (getContributors_page cfg srv repo branch page []) Q"
  unfolding getContributors_page_def commitsInRange_def
  apply (rule emits_tryCatch)
  apply (rule emits_andThen)
  apply (rule emits_listCommits [where r = r, OF assms(1-3)])
  apply (simp add: none_in_range [OF assms(4)] page_of_def)
  apply (rule emits_return)
  apply (simp add: assms(5))
  done

lemma lineStats_nothing_in_range:
  assumes srv: "listCommits srv = hosted_listCommits r" "repo = repo_name r" "history r \<noteq> []"
    and none: "\<forall>c \<in> set (history r).
        \<not> (startDate cfg \<le> committed_at c \<and> committed_at c \<le> endDate cfg)"
    and valid: "startDate cfg \<le> endDate cfg"
    and q: "\<And>evs. Q (Returned no_lines) evs"
  shows "emits (lineStats cfg srv repo branch) Q"
proof (cases "take (Suc 0) (filter (in_window None (Some (endDate cfg))) (history r))")
  case Nil
  show ?thesis
    unfolding lineStats_def
    apply (rule emits_andThen)
    apply (rule emits_listCommits [where r = r, OF srv])
    apply (simp add: page_of_def Nil cong: step_congs)
    apply (rule emits_return)
    apply (simp add: q)
    done
next
  case (Cons c rest)
  show ?thesis
    unfolding lineStats_def
    by (rule emits_andThen emits_return emits_listCommits [where r = r, OF srv]
        | simp add: page_of_def before_range [OF none valid] Cons Let_def q cong: step_congs)+
qed

lemma emits_safe_returned:
  assumes "emits m (\<lambda>res evs. case res of Returned v \<Rightarrow> Q (Returned v) evs | _ \<Rightarrow> False)"
  shows "emits (safe m d) Q"
  by (rule emits_safe, rule emits_weaken [OF assms]) (simp split: outcome.splits)

lemma commits_zero:
  assumes "listCommits srv = hosted_listCommits r" and "repo = repo_name r"
    and "history r \<noteq> []"
    and "\<forall>c \<in> set (history r). \<not> (startDate cfg \<le> committed_at c \<and> committed_at c \<le> endDate cfg)"
    and "0 < fuel"
    and "\<And>evs. Q (Returned 0) evs"
  shows "emits (safe (getCommitCount fuel cfg srv repo (Some branch)) 0) Q"
proof -
  from \<open>0 < fuel\<close> obtain f where f: "fuel = Suc f" by (cases fuel) simp_all
  show ?thesis
    unfolding getCommitCount_def targetBranch_def f
    by (rule emits_safe_returned emits_andThen emits_return emits_paged_Suc
          no_commits_page [OF assms(1-4)]
        | simp add: assms(6) cong: step_congs)+
qed

lemma contributors_none:
  assumes "listCommits srv = hosted_listCommits r" and "repo = repo_name r"
    and "history r \<noteq> []"
    and "\<forall>c \<in> set (history r). \<not> (startDate cfg \<le> committed_at c \<and> committed_at c \<le> endDate cfg)"
    and "0 < fuel"
    and "\<And>evs. Q (Returned []) evs"
  shows "emits (safe (getContributors fuel cfg srv repo (Some branch)) []) Q"
proof -
  from \<open>0 < fuel\<close> obtain f where f: "fuel = Suc f" by (cases fuel) simp_all
  show ?thesis
    unfolding getContributors_def targetBranch_def f
    by (rule emits_safe_returned emits_andThen emits_return emits_paged_Suc
          no_contributors_page [OF assms(1-4)]
        | simp add: assms(6) cong: step_congs)+
qed

lemma lines_zero:
  assumes "listCommits srv = hosted_listCommits r" and "repo = repo_name r"
    and "history r \<noteq> []"
    and "\<forall>c \<in> set (history r). \<not> (startDate cfg \<le> committed_at c \<and> committed_at c \<le> endDate cfg)"
    and "startDate cfg \<le> endDate cfg"
    and q: "\<And>evs. Q (Returned no_lines) evs"
  shows "emits (safe (getLinesOfCode cfg srv repo (Some branch)) no_lines) Q"
proof (cases "skipLineStats cfg")
  case True
  then have "getLinesOfCode cfg srv repo (Some branch) = return no_lines"
    by (simp add: getLinesOfCode_def)
  then show ?thesis
    by (simp only:) (rule emits_safe_returned, rule emits_return, simp add: q)
next
  case False
  then have "getLinesOfCode cfg srv repo (Some branch) =
      tryCatch (lineStats cfg srv repo branch)
        (\<lambda>error. case thrown_status error of
                    Some s \<Rightarrow> if s = 409 \<or> s = 404 then return no_lines else throw error
                  | None \<Rightarrow> throw error)"
    by (simp add: getLinesOfCode_def targetBranch_def andThen_def return_def fun_eq_iff)
  then show ?thesis
    apply (simp only:)
    apply (rule emits_safe_returned)
    apply (rule emits_tryCatch)
    apply (rule lineStats_nothing_in_range [OF assms(1-5)])
    apply (simp add: q)
    done
qed

lemma pulls_some:
  assumes "pulls_list srv = hosted_pulls_list r" and "repo = repo_name r"
    and "length (pull_requests r) < fuel"
    and q: "\<And>v evs. Q (Returned v) evs"
  shows "emits (safe (getPullRequestCount fuel cfg srv repo (Some branch)) 0) Q"
  unfolding getPullRequestCount_def targetBranch_def
  by (rule emits_safe_returned emits_andThen emits_return
        paged_terminates [OF pulls_page_hosted [OF assms(1,2)] pageSize_pos]
      | simp add: q assms(3) cong: step_congs)+

lemma releases_some:
  assumes "listReleases srv = hosted_listReleases r" and "repo = repo_name r"
    and "length (release_list r) < fuel"
    and q: "\<And>v evs. Q (Returned v) evs"
  shows "emits (safe (getReleaseCount fuel cfg srv repo) 0) Q"
  unfolding getReleaseCount_def
  by (rule emits_safe_returned
        paged_terminates [OF releases_page_hosted [OF assms(1,2)] pageSize_pos]
      | simp add: q assms(3) cong: step_congs)+

lemma nothing_in_range_collectAll:
  assumes srv: "srv = hosted r" and repo: "name repoInfo = repo_name r"
    and some: "history r \<noteq> []"
    and none: "\<forall>c \<in> set (history r).
        \<not> (startDate cfg \<le> committed_at c \<and> committed_at c \<le> endDate cfg)"
    and valid: "startDate cfg \<le> endDate cfg"
    and fuel: "length (pull_requests r) < fuel" "length (release_list r) < fuel"
  shows "emits (collectAll order fuel cfg srv repoInfo branch)
     (\<lambda>res evs. \<exists>s. res = Returned s \<and> commits s = 0 \<and> linesAdded s = 0 \<and>
        linesDeleted s = 0 \<and> totalLines s = 0 \<and> contributors s = 0 \<and> contributorsList s = [])"
proof -
  have l: "listCommits srv = hosted_listCommits r" and p: "pulls_list srv = hosted_pulls_list r"
    and rl: "listReleases srv = hosted_listReleases r"
    by (simp_all add: srv hosted_def)
  from fuel have pos: "0 < fuel" by simp
  have all: "emits (promiseAll order
          (safe (getCommitCount fuel cfg srv (name repoInfo) (Some branch)) 0)
          (safe (getLinesOfCode cfg srv (name repoInfo) (Some branch)) no_lines)
          (safe (getPullRequestCount fuel cfg srv (name repoInfo) (Some branch)) 0)
          (safe (getContributors fuel cfg srv (name repoInfo) (Some branch)) [])
          (safe (getReleaseCount fuel cfg srv (name repoInfo)) 0))
     (\<lambda>res evs. \<exists>v1 v2 v3 v4 v5. res = Returned (v1, v2, v3, v4, v5) \<and>
        v1 = 0 \<and> v2 = no_lines \<and> True \<and> v4 = [] \<and> True)"
    by (rule promiseAll_fulfilled)
       (rule commits_zero [OF l repo some none pos] lines_zero [OF l repo some none valid]
          pulls_some [OF p repo fuel(1)] contributors_none [OF l repo some none pos]
          releases_some [OF rl repo fuel(2)], simp)+
  show ?thesis
    unfolding collectAll_def
    by (rule emits_andThen, rule emits_weaken [OF all])
       (auto intro!: emits_return simp: no_lines_def)
qed

text \<open>
  C4. The repository is hosted by a service that keeps the contract above, it has at least
  one commit, and none of its commits lies in the range \<open>[startDate, endDate]\<close> (a
  configuration is accepted only with \<open>startDate \<le> endDate\<close>). Then \<open>getRepoStats\<close> returns
  a record, in whatever order the five promises settle, with \<open>commits = 0\<close>, \<open>linesAdded = 0\<close>,
  \<open>linesDeleted = 0\<close> and \<open>contributors = 0\<close> (and so \<open>totalLines = 0\<close> and an empty
  \<open>contributorsList\<close>). When a commit precedes the range, the base commit and the end commit
  are the same commit, the newest of those; when all commits are newer than the range,
  there is no end commit. The fuel only has to exceed the numbers of pull requests and of
  releases, which bound the pages of their listings.
\<close>

theorem getRepoStats_no_commits_in_range:
  assumes "name repoInfo = repo_name r" and "history r \<noteq> []"
    and "\<forall>c \<in> set (history r).
        \<not> (startDate cfg \<le> committed_at c \<and> committed_at c \<le> endDate cfg)"
    and "startDate cfg \<le> endDate cfg"
    and "length (pull_requests r) < fuel" and "length (release_list r) < fuel"
  shows "\<exists>s st'. getRepoStats order fuel cfg (hosted r) repoInfo st = (Returned s, st') \<and>
           commits s = 0 \<and> linesAdded s = 0 \<and> linesDeleted s = 0 \<and> totalLines s = 0 \<and>
           contributors s = 0 \<and> contributorsList s = []"
proof -
  have g: "repos_get (hosted r) = hosted_repos_get r"
    by (simp add: hosted_def)
  have "emits (getRepoStats order fuel cfg (hosted r) repoInfo)
     (\<lambda>res evs. \<exists>s. res = Returned s \<and> commits s = 0 \<and> linesAdded s = 0 \<and>
        linesDeleted s = 0 \<and> totalLines s = 0 \<and> contributors s = 0 \<and> contributorsList s = [])"
    unfolding getRepoStats_def resolveBranch_def
    apply (rule emits_andThen)
    apply (rule emits_tryCatch)
    apply (rule emits_andThen)
    apply (rule emits_getDefaultBranch [OF g assms(1)])
    apply simp
    apply (rule emits_return)
    apply simp
    apply (rule emits_weaken [OF nothing_in_range_collectAll [OF refl assms]])
    apply simp
    done
  then show ?thesis
    by (cases "getRepoStats order fuel cfg (hosted r) repoInfo st") (auto elim!: emitsD)
qed

theorem getRepoStats_no_commits_in_range_witness:
  "(\<exists>s st'. getRepoStats [] 2 sample_config (hosted dormant_repository) alpha (new_client 0) =
              (Returned s, st') \<and>
      commits s = 0 \<and> linesAdded s = 0 \<and> linesDeleted s = 0 \<and> contributors s = 0) \<and>
   (\<exists>s st'. getRepoStats [ReleaseCount, CommitCount] 2 sample_config (hosted later_repository)
              alpha (new_client 0) = (Returned s, st') \<and>
      commits s = 0 \<and> linesAdded s = 0 \<and> linesDeleted s = 0 \<and> contributors s = 0)"
  using getRepoStats_no_commits_in_range
          [where repoInfo = alpha and r = dormant_repository and cfg = sample_config
             and fuel = 2 and order = "[]" and st = "new_client 0"]
        getRepoStats_no_commits_in_range
          [where repoInfo = alpha and r = later_repository and cfg = sample_config
             and fuel = 2 and order = "[ReleaseCount, CommitCount]" and st = "new_client 0"]
  by (simp add: alpha_def dormant_repository_def later_repository_def old_commit_def
      late_commit_def sample_config_def) blast

subsection \<open>The root commit\<close>

text \<open>
  When all the commits of the repository lie in the range and fit in one page, and the
  oldest has no parent, \<open>getLinesOfCode\<close> returns the recorded additions and deletions of
  that root commit.
\<close>

lemma root_fallback:
  assumes srv: "listCommits srv = hosted_listCommits r" "repo = repo_name r"
      "history r \<noteq> []"
    and get: "getCommit srv = hosted_getCommit r"
    and within: "\<forall>c \<in> set (history r).
        startDate cfg \<le> committed_at c \<and> committed_at c \<le> endDate cfg"
    and one_page: "length (history r) \<le> pageSize cfg"
    and root: "parents (last (history r)) = []"
    and found: "find (\<lambda>c. sha c = sha (last (history r))) (history r) = Some (last (history r))"
    and lines: "\<not> skipLineStats cfg"
  shows "emits (getLinesOfCode cfg srv repo (Some branch))
     (\<lambda>res evs. res = Returned (rootStats (last (history r))))"
proof -
  have upto: "filter (in_window None (Some (endDate cfg))) (history r) = history r"
    using within by (auto simp: in_window_def intro: filter_True)
  have before: "filter (in_window None (Some (startDate cfg - 1))) (history r) = []"
    using within by (auto simp: in_window_def filter_empty_conv)
  have inside: "filter (in_window (Some (startDate cfg)) (Some (endDate cfg))) (history r) =
      history r"
    using within by (auto simp: in_window_def intro: filter_True)
  have first: "take (Suc 0) (history r) = [hd (history r)]"
    using srv(3) by (cases "history r") simp_all
  have whole: "take (pageSize cfg) (history r) = history r"
    using one_page by simp
  show ?thesis
    unfolding getLinesOfCode_def lineStats_def firstCommitParent_def targetBranch_def
    using lines
    apply (simp cong: step_congs)
    apply (rule emits_andThen emits_tryCatch emits_return emits_listCommits [where r = r, OF srv]
        emits_getCommit [where r = r and c = "last (history r)", OF get srv(2) found]
      | simp add: page_of_def upto before inside first whole root srv(3) Let_def
             cong: step_congs)+
    done
qed

lemma three_commits_lines:
  "emits (getLinesOfCode sample_config (hosted three_commit_repository) ''alpha'' (Some ''main''))
     (\<lambda>res evs.
        res = Returned \<lparr>added = 7, deleted = 2\<rparr> \<and>
        requests evs =
          [ListCommits ''alpha'' ''main'' None (Some 2000) 1 None,
           ListCommits ''alpha'' ''main'' None (Some 999) 1 None,
           ListCommits ''alpha'' ''main'' (Some 1000) (Some 2000) 2 None,
           GetCommit ''alpha'' ''c2'',
           CompareCommits ''alpha'' ''c1'' ''c3''])"
  unfolding collector_defs
  by (rule emits_andThen emits_tryCatch emits_return emits_throw
        emits_listCommits [where r = three_commit_repository]
        emits_getCommit [where r = three_commit_repository and c = second_commit]
        emits_compareCommits [where r = three_commit_repository]
      | simp add: hosted_def three_commit_repository_def third_commit_def second_commit_def
          root_commit_def sample_config_def sample_diff_def pageSize_def page_of_def
          in_window_def Let_def sumFiles_def or_zero_def no_lines_def cong: step_congs)+

text \<open>
  C1 fails when the commits in the range do not fit in one page. The source lists the
  commits in the range with \<^verbatim>\<open>per_page: this.pageSize\<close> and no \<^verbatim>\<open>page\<close>, and takes
  the last commit of that first page for the oldest commit in the range. With three commits
  in the range, the oldest of them the root commit with 10 additions and no deletion, and
  pages of two, the last commit of the first page is the second commit: \<open>getLinesOfCode\<close>
  looks up its parent, the root commit, and returns the comparison of the root commit
  with the newest commit, \<open>{added: 7, deleted: 2}\<close>, not the root commit's own
  \<open>{added: 10, deleted: 0}\<close>.
\<close>

theorem getLinesOfCode_first_page_only:
  "fst (getLinesOfCode sample_config (hosted three_commit_repository) ''alpha'' (Some ''main'')
          (new_client 0)) = Returned \<lparr>added = 7, deleted = 2\<rparr> \<and>
   requests (trace (snd (getLinesOfCode sample_config (hosted three_commit_repository) ''alpha''
                           (Some ''main'') (new_client 0)))) =
     [ListCommits ''alpha'' ''main'' None (Some 2000) 1 None,
      ListCommits ''alpha'' ''main'' None (Some 999) 1 None,
      ListCommits ''alpha'' ''main'' (Some 1000) (Some 2000) 2 None,
      GetCommit ''alpha'' ''c2'',
      CompareCommits ''alpha'' ''c1'' ''c3''] \<and>
   last (history three_commit_repository) = root_commit \<and>
   parents root_commit = [] \<and>
   rootStats root_commit = \<lparr>added = 10, deleted = 0\<rparr> \<and>
   list_all (\<lambda>c. startDate sample_config \<le> committed_at c \<and>
                  committed_at c \<le> endDate sample_config)
     (history three_commit_repository)"
proof -
  obtain res st' where run: "getLinesOfCode sample_config (hosted three_commit_repository)
      ''alpha'' (Some ''main'') (new_client 0) = (res, st')"
    by (cases "getLinesOfCode sample_config (hosted three_commit_repository)
      ''alpha'' (Some ''main'') (new_client 0)")
  from emitsD [OF three_commits_lines run] obtain evs
    where "trace st' = trace (new_client 0) @ evs"
      and "res = Returned \<lparr>added = 7, deleted = 2\<rparr>"
      and "requests evs =
          [ListCommits ''alpha'' ''main'' None (Some 2000) 1 None,
           ListCommits ''alpha'' ''main'' None (Some 999) 1 None,
           ListCommits ''alpha'' ''main'' (Some 1000) (Some 2000) 2 None,
           GetCommit ''alpha'' ''c2'',
           CompareCommits ''alpha'' ''c1'' ''c3'']"
    by blast
  with run show ?thesis
    by (simp add: new_client_def three_commit_repository_def third_commit_def
        second_commit_def root_commit_def sample_config_def rootStats_def or_zero_def)
qed

subsection \<open>Issue counts\<close>

lemma andThen_Returned_iff:
  "andThen m f st = (Returned w, st') \<longleftrightarrow>
     (\<exists>v s1. m st = (Returned v, s1) \<and> f v s1 = (Returned w, st'))"
  by (auto simp: andThen_def split: prod.splits outcome.splits)

lemma only_fetchDefaultBranch:
  assumes "P (Succeeded (ReposGet repo))" and "\<And>e. P (Failed (ReposGet repo) e)"
    and "\<And>ms. P (Slept ms)"
  shows "emits (fetchDefaultBranch srv repo) (only P)"
  unfolding fetchDefaultBranch_def
  by (intro only_andThen only_withRetry only_silent assms)
     (simp add: rememberBranch_def Let_def)

lemma only_getDefaultBranch:
  assumes "P (Succeeded (ReposGet repo))" and "\<And>e. P (Failed (ReposGet repo) e)"
    and "\<And>ms. P (Slept ms)"
  shows "emits (getDefaultBranch srv repo) (only P)"
proof (rule emitsI)
  fix st res st'
  assume run: "getDefaultBranch srv repo st = (res, st')"
  show "\<exists>evs. trace st' = trace st @ evs \<and> only P res evs"
  proof (cases "\<exists>cached. repoBranchCache st repo = Some cached \<and> cached \<noteq> []")
    case True
    with run have "st' = st" by (auto simp: getDefaultBranch_def)
    then show ?thesis by (auto simp: only_def)
  next
    case False
    with run have "fetchDefaultBranch srv repo st = (res, st')"
      by (auto simp: getDefaultBranch_def split: option.splits if_splits)
    from emitsD [OF only_fetchDefaultBranch [of P, OF assms] this] show ?thesis by blast
  qed
qed

lemma apart_from_issues_simps [simp]:
  "apart_from_issues (Slept ms)"
  "apart_from_issues (Succeeded req) = (\<not> listsIssues req)"
  "apart_from_issues (Failed req e) = (\<not> listsIssues req)"
  by (simp_all add: apart_from_issues_def)

lemma no_issues_getDefaultBranch:
  "emits (getDefaultBranch srv repo) (only apart_from_issues)"
  by (rule only_getDefaultBranch) simp_all

lemma no_issues_targetBranch:
  "emits (targetBranch srv repo branch) (only apart_from_issues)"
  by (cases branch) (simp_all add: targetBranch_def only_return no_issues_getDefaultBranch)

lemma no_issues_getCommitCount:
  "emits (getCommitCount fuel cfg srv repo branch) (only apart_from_issues)"
  unfolding getCommitCount_def getCommitCount_page_def commitsInRange_def
  by (intro only_andThen no_issues_targetBranch only_paged only_tryCatch only_withRetry)
     (auto simp: Let_def only_return only_throw)

lemma no_issues_getContributors:
  "emits (getContributors fuel cfg srv repo branch) (only apart_from_issues)"
  unfolding getContributors_def getContributors_page_def commitsInRange_def
  by (intro only_andThen no_issues_targetBranch only_paged only_tryCatch only_withRetry)
     (auto simp: Let_def only_return only_throw)

lemma no_issues_getPullRequestCount:
  "emits (getPullRequestCount fuel cfg srv repo branch) (only apart_from_issues)"
  unfolding getPullRequestCount_def getPullRequestCount_page_def
  by (intro only_andThen no_issues_targetBranch only_paged only_withRetry)
     (auto simp: only_return split: flow.split)

lemma no_issues_getReleaseCount:
  "emits (getReleaseCount fuel cfg srv repo) (only apart_from_issues)"
  unfolding getReleaseCount_def getReleaseCount_page_def
  by (intro only_paged only_tryCatch only_andThen only_withRetry)
     (auto simp: only_return split: flow.split)

lemma no_issues_firstCommitParent:
  "emits (firstCommitParent cfg srv repo branch) (only apart_from_issues)"
  unfolding firstCommitParent_def Let_def
  by (intro only_andThen only_withRetry allI)
     (auto simp: only_return intro!: only_andThen only_withRetry split: list.split)

lemma no_issues_lineStats:
  "emits (lineStats cfg srv repo branch) (only apart_from_issues)"
  unfolding lineStats_def Let_def
  by (intro only_andThen only_withRetry allI)
     (auto simp: only_return no_issues_firstCommitParent
           intro!: only_andThen only_withRetry split: list.split base.split)

lemma no_issues_getLinesOfCode:
  "emits (getLinesOfCode cfg srv repo branch) (only apart_from_issues)"
  unfolding getLinesOfCode_def
  by (auto simp: only_return only_throw
        intro!: only_andThen no_issues_targetBranch only_tryCatch no_issues_lineStats
        split: option.split)

lemma no_issues_safe:
  "emits m (only apart_from_issues) \<Longrightarrow> emits (safe m d) (only apart_from_issues)"
  unfolding safe_def by (rule only_tryCatch) (auto simp: only_return only_throw)

lemma requests_apart_from_issues:
  "list_all apart_from_issues evs \<Longrightarrow> \<not> list_ex listsIssues (requests evs)"
  by (induction evs rule: requests.induct) simp_all

lemma getRepoStats_issues:
  assumes "getRepoStats order fuel cfg srv repoInfo st = (Returned s, st')"
  shows "issuesCreated s = 0 \<and> issuesClosed s = 0"
  using assms
  by (auto simp: getRepoStats_def collectAll_def andThen_Returned_iff return_def emptyStats_def
      split: option.splits prod.splits)

lemma no_issues_collectAll:
  "emits (collectAll order fuel cfg srv repoInfo branch) (only apart_from_issues)"
  unfolding collectAll_def
  by (intro only_andThen only_promiseAll no_issues_safe no_issues_getCommitCount
        no_issues_getLinesOfCode no_issues_getPullRequestCount no_issues_getContributors
        no_issues_getReleaseCount)
     (simp add: only_return split: prod.split)

lemma no_issues_getRepoStats:
  "emits (getRepoStats order fuel cfg srv repoInfo) (only apart_from_issues)"
  unfolding getRepoStats_def resolveBranch_def
  by (intro only_andThen only_tryCatch no_issues_getDefaultBranch)
     (auto simp: only_return only_throw no_issues_collectAll split: option.split)

text \<open>
  C10. Whenever \<open>getRepoStats\<close> returns a record, in whatever order the five promises
  settle, its \<open>issuesCreated\<close> and \<open>issuesClosed\<close> are 0, and the run has sent no request for
  the issues of a repository: \<open>getIssueStats\<close>, the only method that sends one, is not part
  of the collection.
\<close>

theorem getRepoStats_issue_counts:
  assumes "getRepoStats order fuel cfg srv repoInfo st = (Returned s, st')"
  shows "issuesCreated s = 0 \<and> issuesClosed s = 0 \<and>
         (\<exists>evs. trace st' = trace st @ evs \<and> \<not> list_ex listsIssues (requests evs))"
proof -
  from emitsD [OF no_issues_getRepoStats assms] obtain evs
    where "trace st' = trace st @ evs" and "list_all apart_from_issues evs"
    by (auto simp: only_def)
  with getRepoStats_issues [OF assms] show ?thesis
    by (blast dest: requests_apart_from_issues)
qed

theorem getRepoStats_issue_counts_witness:
  "\<exists>s st'. getRepoStats [] 3 sample_config releases_down alpha (new_client 0) = (Returned s, st') \<and>
     commits s = 1 \<and> issuesCreated s = 0 \<and> issuesClosed s = 0 \<and>
     \<not> list_ex listsIssues (requests (trace st'))"
proof -
  obtain res st' where run: "getRepoStats [] 3 sample_config releases_down alpha (new_client 0) =
      (res, st')"
    by (cases "getRepoStats [] 3 sample_config releases_down alpha (new_client 0)")
  then have "andThen (resolveBranch (fetchDefaultBranch releases_down) alpha)
           (\<lambda>resolved.
              (case resolved of
                 None \<Rightarrow> return (emptyStats alpha)
               | Some branch \<Rightarrow> collectAll [] 3 sample_config releases_down alpha branch))
         (new_client 0) = (res, st')"
    by (simp add: getRepoStats_uncached fresh_cache)
  from emitsD [OF releases_down_run this] obtain s
    where r: "res = Returned s" and c: "commits s = 1"
    by (metis RepoStats.select_convs(3))
  from run r have run': "getRepoStats [] 3 sample_config releases_down alpha (new_client 0) =
      (Returned s, st')" by simp
  from getRepoStats_issue_counts [OF run'] obtain evs
    where i: "issuesCreated s = 0" "issuesClosed s = 0"
      and t: "trace st' = trace (new_client 0) @ evs"
      and n: "\<not> list_ex listsIssues (requests evs)"
    by blast
  from t have "trace st' = evs" by (simp add: new_client_def)
  with run' c i n show ?thesis by blast
qed

subsection \<open>Pull requests: the early stop\<close>

lemma five_pulls_pages:
  assumes order: "t1 < t2" "t2 < t3" "t3 < t4" "t4 < t5"
    and range: "startDate cfg = t2" "endDate cfg = t4"
    and served: "pulls_list srv = hosted_pulls_list r" "repo = repo_name r"
      "pull_requests r = map (\<lambda>t. \<lparr>pull_created_at = t\<rparr>) [t5, t4, t3, t2, t1]"
    and size: "pageSize cfg = 1 \<or> pageSize cfg = 2 \<or> pageSize cfg = 3 \<or> pageSize cfg = 4 \<or>
      5 \<le> pageSize cfg"
  shows "emits (getPullRequestCount (Suc (Suc (Suc (Suc (Suc fuel))))) cfg srv repo (Some branch))
     (\<lambda>res evs. res = Returned 3 \<and>
        requests evs = map (\<lambda>page. PullsList repo branch (pageSize cfg) page)
                         [1..<2 + 4 div pageSize cfg])"
  unfolding getPullRequestCount_def getPullRequestCount_page_def targetBranch_def
  apply (insert order range served(3) size)
  apply (elim disjE)
  subgoal
    by ((rule emits_andThen emits_return emits_paged_Suc
            emits_pulls_list [where r = r, OF served(1,2)]
          | simp add: page_of_def cong: step_congs)+, simp add: eval_nat_numeral)
  subgoal
    by ((rule emits_andThen emits_return emits_paged_Suc
            emits_pulls_list [where r = r, OF served(1,2)]
          | simp add: page_of_def cong: step_congs)+, simp add: eval_nat_numeral)
  subgoal
    by ((rule emits_andThen emits_return emits_paged_Suc
            emits_pulls_list [where r = r, OF served(1,2)]
          | simp add: page_of_def cong: step_congs)+, simp add: eval_nat_numeral)
  subgoal
    by ((rule emits_andThen emits_return emits_paged_Suc
            emits_pulls_list [where r = r, OF served(1,2)]
          | simp add: page_of_def cong: step_congs)+, simp add: eval_nat_numeral)
  subgoal
    by ((rule emits_andThen emits_return emits_paged_Suc
            emits_pulls_list [where r = r, OF served(1,2)]
          | simp add: page_of_def cong: step_congs)+, simp add: eval_nat_numeral)
  done

text \<open>
  C7. The service lists five pull requests, newest first, created at \<open>t5 > t4 > t3 > t2 > t1\<close>,
  and the range is \<open>[t2, t4]\<close>. For every page size, \<open>getPullRequestCount\<close> returns 3 (the
  pull requests created at \<open>t4\<close>, \<open>t3\<close> and \<open>t2\<close>), and it requests the pages in order up to the
  one that holds the pull request created at \<open>t1\<close>, which is before the start of the
  range, and no page after it: pages 1 to \<open>4 div pageSize + 1\<close>. Five units of fuel are
  enough.
\<close>

theorem getPullRequestCount_early_stop:
  assumes order: "t1 < t2" "t2 < t3" "t3 < t4" "t4 < t5"
    and range: "startDate cfg = t2" "endDate cfg = t4"
    and served: "pulls_list srv = hosted_pulls_list r" "repo = repo_name r"
      "pull_requests r = map (\<lambda>t. \<lparr>pull_created_at = t\<rparr>) [t5, t4, t3, t2, t1]"
    and fuel: "5 \<le> fuel"
  shows "\<exists>st'. getPullRequestCount fuel cfg srv repo (Some branch) st = (Returned 3, st') \<and>
           requests (trace st') =
             requests (trace st) @
             map (\<lambda>page. PullsList repo branch (pageSize cfg) page)
               [1..<2 + 4 div pageSize cfg]"
proof -
  from fuel obtain f where "fuel = 5 + f"
    using le_Suc_ex by blast
  then have f: "fuel = Suc (Suc (Suc (Suc (Suc f))))"
    by simp
  have size: "pageSize cfg = 1 \<or> pageSize cfg = 2 \<or> pageSize cfg = 3 \<or> pageSize cfg = 4 \<or>
      5 \<le> pageSize cfg"
    using pageSize_pos [of cfg] by linarith
  have run: "emits (getPullRequestCount fuel cfg srv repo (Some branch))
     (\<lambda>res evs. res = Returned 3 \<and>
        requests evs = map (\<lambda>page. PullsList repo branch (pageSize cfg) page)
                         [1..<2 + 4 div pageSize cfg])"
    unfolding f by (rule five_pulls_pages [OF order range served size])
  obtain res st' where r: "getPullRequestCount fuel cfg srv repo (Some branch) st = (res, st')"
    by (cases "getPullRequestCount fuel cfg srv repo (Some branch) st")
  from emitsD [OF run r] obtain evs where "trace st' = trace st @ evs"
    and "res = Returned 3"
    and "requests evs = map (\<lambda>page. PullsList repo branch (pageSize cfg) page)
                         [1..<2 + 4 div pageSize cfg]"
    by blast
  with r show ?thesis
    by simp
qed

theorem getPullRequestCount_early_stop_witness:
  "\<exists>st'. getPullRequestCount 5 pulls_config (hosted five_pulls_repository) ''alpha''
           (Some ''main'') (new_client 0) = (Returned 3, st') \<and>
         requests (trace st') =
           [PullsList ''alpha'' ''main'' 1 1, PullsList ''alpha'' ''main'' 1 2,
            PullsList ''alpha'' ''main'' 1 3, PullsList ''alpha'' ''main'' 1 4,
            PullsList ''alpha'' ''main'' 1 5]"
proof -
  have order: "(100::int) < 200" "(200::int) < 300" "(300::int) < 400" "(400::int) < 500"
    by simp_all
  have range: "startDate pulls_config = 200" "endDate pulls_config = 400"
    by (simp_all add: pulls_config_def)
  have served: "pulls_list (hosted five_pulls_repository) = hosted_pulls_list five_pulls_repository"
    "''alpha'' = repo_name five_pulls_repository"
    "pull_requests five_pulls_repository =
       map (\<lambda>t. \<lparr>pull_created_at = t\<rparr>) [500, 400, 300, 200, 100]"
    by (simp_all add: hosted_def five_pulls_repository_def)
  have fuel: "(5::nat) \<le> 5" by simp
  have pages: "map (\<lambda>page. PullsList ''alpha'' ''main'' (pageSize pulls_config) page)
        [1..<2 + 4 div pageSize pulls_config] =
      [PullsList ''alpha'' ''main'' 1 1, PullsList ''alpha'' ''main'' 1 2,
       PullsList ''alpha'' ''main'' 1 3, PullsList ''alpha'' ''main'' 1 4,
       PullsList ''alpha'' ''main'' 1 5]"
    by (simp add: pageSize_def pulls_config_def eval_nat_numeral)
  from getPullRequestCount_early_stop [OF order range served fuel, of "''main''" "new_client 0"]
  show ?thesis
    unfolding pages by (simp add: new_client_def)
qed

subsection \<open>The batch scheduler keeps the order of its input\<close>

lemma settle_all_fulfilled:
  assumes "\<forall>k < length ps. ps ! k = Inr (vs ! k)"
  shows "\<exists>final. settle settled ps slots = Inr final \<and> length final = length slots \<and>
           (\<forall>j < length slots. final ! j =
              (if j \<in> set settled \<and> j < length ps then Some (vs ! j) else slots ! j))"
proof (induction settled arbitrary: slots)
  case Nil
  show ?case by simp
next
  case (Cons k ks)
  show ?case
  proof (cases "k < length ps")
    case False
    with Cons.IH [of slots] show ?thesis by auto
  next
    case True
    with assms have pk: "ps ! k = Inr (vs ! k)" by simp
    from Cons.IH [of "slots[k := Some (vs ! k)]"] obtain final
      where f: "settle ks ps (slots[k := Some (vs ! k)]) = Inr final"
        "length final = length slots"
        "\<forall>j < length slots. final ! j =
           (if j \<in> set ks \<and> j < length ps then Some (vs ! j)
            else (slots[k := Some (vs ! k)]) ! j)"
      by auto
    have "\<forall>j < length slots. final ! j =
        (if j \<in> set (k # ks) \<and> j < length ps then Some (vs ! j) else slots ! j)"
      using f(3) True by (auto simp: nth_list_update)
    with f(1,2) True pk show ?thesis by simp
  qed
qed

lemma promise_all_fulfilled:
  assumes ps: "\<forall>k < length ps. ps ! k = Inr (vs ! k)" and len: "length vs = length ps"
    and all: "{..<length ps} \<subseteq> set settled"
  shows "promise_all settled ps = Some (Inr vs)"
proof -
  from settle_all_fulfilled [OF ps, of settled "replicate (length ps) None"] obtain final
    where f: "settle settled ps (replicate (length ps) None) = Inr final"
      "length final = length ps"
      "\<forall>j < length ps. final ! j =
         (if j \<in> set settled \<and> j < length ps then Some (vs ! j)
          else replicate (length ps) None ! j)"
    by auto
  have "final = map Some vs"
  proof (rule nth_equalityI)
    show "length final = length (map Some vs)" using f(2) len by simp
  next
    fix j assume "j < length final"
    with f(2,3) all len show "final ! j = map Some vs ! j" by auto
  qed
  moreover have "those (map Some vs) = Some vs"
    by (induction vs) simp_all
  ultimately show ?thesis
    using f(1) by (simp add: promise_all_def)
qed

lemma store_batch:
  assumes "i + length vs \<le> length results"
  shows "store (map (\<lambda>k. (i + k, vs ! k)) [0..<length vs]) results =
         take i results @ map Some vs @ drop (i + length vs) results"
  using assms
proof (induction vs arbitrary: results rule: rev_induct)
  case Nil
  show ?case by (simp add: store_def)
next
  case (snoc v vs)
  have m: "map (\<lambda>k. (i + k, (vs @ [v]) ! k)) [0..<length vs] =
      map (\<lambda>k. (i + k, vs ! k)) [0..<length vs]"
    by (auto simp: nth_append)
  have "store (map (\<lambda>k. (i + k, (vs @ [v]) ! k)) [0..<length (vs @ [v])]) results =
        (store (map (\<lambda>k. (i + k, vs ! k)) [0..<length vs]) results)
          [i + length vs := Some v]"
    by (simp add: store_def m)
  also have "\<dots> = (take i results @ map Some vs @ drop (i + length vs) results)
          [i + length vs := Some v]"
    using snoc by simp
  also have "\<dots> = take i results @ map Some (vs @ [v]) @
      drop (i + length (vs @ [v])) results"
  proof -
    have d: "drop (i + length vs) results =
        results ! (i + length vs) # drop (Suc (i + length vs)) results"
      using snoc.prems by (simp add: Cons_nth_drop_Suc)
    have "i \<le> length results" using snoc.prems by simp
    then show ?thesis
      by (subst d) (simp add: list_update_append)
  qed
  finally show ?case .
qed

lemma processRepos_from_fulfilled:
  assumes c: "0 < concurrency"
    and all: "\<forall>repo \<in> set repos. collect repo = Inr (f repo)"
    and ord: "\<forall>i < length repos. {..<min concurrency (length repos - i)} \<subseteq> set (order i)"
    and inv: "results = map (\<lambda>repo. Some (f repo)) (take i repos) @
                replicate (length repos - i) None"
  shows "\<exists>batches.
           processRepos_from collect order repos concurrency i results dispatched =
             Some (Inr (map (\<lambda>repo. Some (f repo)) repos, dispatched @ batches)) \<and>
           concat batches = drop i repos \<and>
           (\<forall>b \<in> set batches. b \<noteq> [] \<and> length b \<le> concurrency)"
  using inv
proof (induction "length repos - i" arbitrary: i results dispatched rule: less_induct)
  case less
  show ?case
  proof (cases "i < length repos")
    case False
    with less.prems have "results = map (\<lambda>repo. Some (f repo)) repos" by simp
    with False have "processRepos_from collect order repos concurrency i results dispatched =
        Some (Inr (map (\<lambda>repo. Some (f repo)) repos, dispatched @ []))"
      by (subst processRepos_from.simps) simp
    moreover from False have "concat [] = drop i repos" by simp
    ultimately show ?thesis by fastforce
  next
    case True
    define batch where "batch = take concurrency (drop i repos)"
    define vs where "vs = map f batch"
    have len: "length batch = min concurrency (length repos - i)"
      by (simp add: batch_def min_def)
    have pos: "batch \<noteq> []" using True c len by (auto simp: min_def split: if_splits)
    have sub: "set batch \<subseteq> set repos"
      by (metis batch_def set_take_subset set_drop_subset subset_trans)
    define promises where "promises =
        map (\<lambda>(repo, batchIdx).
               case collect repo of
                 Inl e \<Rightarrow> Inl e
               | Inr repoStats \<Rightarrow>
                   Inr (map (\<lambda>idx. i + idx) [0..<length batch] ! batchIdx, repoStats))
          (zip batch [0..<length batch])"
    define indexed where "indexed = map (\<lambda>k. (i + k, vs ! k)) [0..<length vs]"
    have pl: "length promises = length batch" by (simp add: promises_def)
    have pk: "\<forall>k < length promises. promises ! k = (Inr (indexed ! k) :: thrown + nat \<times> RepoStats)"
    proof (intro allI impI)
      fix k assume k: "k < length promises"
      with pl have kb: "k < length batch" by simp
      then have "batch ! k \<in> set repos" using sub by (metis nth_mem subsetD)
      with all have "collect (batch ! k) = Inr (f (batch ! k))" by blast
      with kb show "promises ! k = Inr (indexed ! k)"
        by (simp add: promises_def indexed_def vs_def)
    qed
    have il: "length indexed = length promises" by (simp add: indexed_def vs_def pl)
    have "{..<length promises} \<subseteq> set (order i)"
      using ord True pl len by simp
    from promise_all_fulfilled [OF pk il this]
    have pa: "promise_all (order i) promises = Some (Inr indexed)" .
    have rl: "length results = length repos"
      using less.prems True by simp
    have fits: "i + length vs \<le> length results"
      using True len by (auto simp: vs_def rl min_def split: if_splits)
    have stored: "store indexed results =
        map (\<lambda>repo. Some (f repo)) (take (i + concurrency) repos) @
        replicate (length repos - (i + concurrency)) None"
    proof -
      have "store indexed results =
          take i results @ map Some vs @ drop (i + length vs) results"
        unfolding indexed_def by (rule store_batch [OF fits])
      also have "take i results = map (\<lambda>repo. Some (f repo)) (take i repos)"
        using less.prems True by simp
      also have "drop (i + length vs) results = replicate (length repos - (i + concurrency)) None"
        using less.prems True len by (auto simp: vs_def min_def)
      also have "map (\<lambda>repo. Some (f repo)) (take i repos) @ map Some vs @
          replicate (length repos - (i + concurrency)) None =
          map (\<lambda>repo. Some (f repo)) (take (i + concurrency) repos) @
          replicate (length repos - (i + concurrency)) None"
        by (simp add: vs_def batch_def take_add)
      finally show ?thesis .
    qed
    have "length repos - (i + concurrency) < length repos - i"
      using True c by simp
    from less.hyps [OF this stored, of "dispatched @ [batch]"] obtain batches
      where rest: "processRepos_from collect order repos concurrency (i + concurrency)
          (store indexed results) (dispatched @ [batch]) =
          Some (Inr (map (\<lambda>repo. Some (f repo)) repos, (dispatched @ [batch]) @ batches))"
        and cat: "concat batches = drop (i + concurrency) repos"
        and sizes: "\<forall>b \<in> set batches. b \<noteq> [] \<and> length b \<le> concurrency"
      by blast
    have "processRepos_from collect order repos concurrency i results dispatched =
        Some (Inr (map (\<lambda>repo. Some (f repo)) repos, dispatched @ (batch # batches)))"
      using True c pa rest
      by (subst processRepos_from.simps)
         (simp add: slice_batch batch_def [symmetric] promises_def [symmetric] Let_def)
    moreover have "concat (batch # batches) = drop i repos"
      using cat by (simp add: batch_def add.commute [of i] flip: drop_drop)
    moreover have "\<forall>b \<in> set (batch # batches). b \<noteq> [] \<and> length b \<le> concurrency"
      using sizes pos len by simp
    ultimately show ?thesis by blast
  qed
qed

lemma processRepos_zero:
  "repos \<noteq> [] \<Longrightarrow> processRepos collect order repos 0 = None"
  unfolding processRepos_def by (subst processRepos_from.simps) simp

text \<open>
  C8. With a concurrency of at least 1, when every collection succeeds and every promise
  of a batch settles, in whatever order, \<open>processRepos\<close> returns the array that holds at each
  index the record of the repository at that index of the input; the batches it
  dispatched are consecutive pieces of the input (their concatenation is the input), each
  with at least one and at most \<open>concurrency\<close> repositories.
\<close>

theorem processRepos_keeps_order:
  assumes "0 < concurrency"
    and "\<forall>repo \<in> set repos. collect repo = Inr (f repo)"
    and "\<forall>i < length repos. {..<min concurrency (length repos - i)} \<subseteq> set (order i)"
  shows "\<exists>batches.
           processRepos collect order repos concurrency =
             Some (Inr (map (\<lambda>repo. Some (f repo)) repos, batches)) \<and>
           concat batches = repos \<and>
           (\<forall>b \<in> set batches. b \<noteq> [] \<and> length b \<le> concurrency)"
proof -
  from processRepos_from_fulfilled [OF assms, of "replicate (length repos) None" 0 "[]"]
  show ?thesis
    by (simp add: processRepos_def)
qed

theorem processRepos_keeps_order_witness:
  "\<exists>batches.
     processRepos (\<lambda>repo. Inr (emptyStats repo)) second_first [alpha, beta, gamma, delta] 2 =
       Some (Inr ([Some (emptyStats alpha), Some (emptyStats beta), Some (emptyStats gamma),
                   Some (emptyStats delta)], batches)) \<and>
     concat batches = [alpha, beta, gamma, delta] \<and>
     list_all (\<lambda>b. b \<noteq> [] \<and> length b \<le> 2) batches"
proof -
  have c: "(0::nat) < 2" by simp
  have all: "\<forall>repo \<in> set [alpha, beta, gamma, delta].
      (\<lambda>repo. Inr (emptyStats repo) :: thrown + RepoStats) repo = Inr (emptyStats repo)"
    by simp
  have ord: "\<forall>i < length [alpha, beta, gamma, delta].
      {..<min 2 (length [alpha, beta, gamma, delta] - i)} \<subseteq> set (second_first i)"
    by (auto simp: second_first_def)
  from processRepos_keeps_order [OF c all ord]
  show ?thesis by (simp add: list_all_iff)
qed

end
